theory Spec2Isabelle
  imports Main "HOL-Library.Multiset"
begin

section \<open>JavaScript values, references and the object store\<close>

text \<open>
  The source (\<^verbatim>\<open>src/ds/BinarySearchTree.js\<close>) links \<^verbatim>\<open>BSTNode\<close> objects through
  \<^verbatim>\<open>parent\<close>, \<^verbatim>\<open>left\<close> and \<^verbatim>\<open>right\<close> references and mutates them in place, and
  \<^verbatim>\<open>remove\<close> creates a plain object \<^verbatim>\<open>{left: this.root}\<close> that it stores in a node's
  \<^verbatim>\<open>parent\<close> field. The model therefore keeps an explicit store from addresses to
  objects. A reference is \<^verbatim>\<open>null\<close>, \<^verbatim>\<open>undefined\<close> or the address of an object;
  \<^verbatim>\<open>===\<close> on references is equality of these.
\<close>

type_synonym addr = nat

datatype ref = Null | Undef | Ref addr

text \<open>
  A JavaScript value as the tree stores, compares and returns it. \<open>JVal\<close> carries the
  payload (a number, for the counts the methods return and for the default ordering).
  \<^verbatim>\<open>===\<close> on values is HOL equality (so payloads such as \<^verbatim>\<open>NaN\<close> are outside the model).
\<close>

datatype 'a jsval = JNull | JUndefined | JVal 'a

text \<open>
  \<open>TypeError\<close> is what JavaScript throws on a property read or write, or a method call,
  on \<^verbatim>\<open>null\<close> or \<^verbatim>\<open>undefined\<close>, and on a call of a method the object does not have.
  \<open>Dangling\<close> is the model's own: an address the store does not hold, which no
  JavaScript heap has.
\<close>

datatype error = TypeError | Dangling

datatype kind = BSTNode | Plain

text \<open>
  An object is a bag of properties; reading a property it does not have gives
  \<^verbatim>\<open>undefined\<close>. So a plain object \<^verbatim>\<open>{left: r}\<close> is a record whose other fields hold
  \<^verbatim>\<open>undefined\<close>. \<open>kind\<close> says whether the object was made by \<^verbatim>\<open>new BSTNode\<close> and so
  has the methods of that class. (\<open>val\<close> is the source's \<^verbatim>\<open>value\<close>.)
\<close>

record 'a obj =
  kind :: kind
  val :: "'a jsval"
  parent :: ref
  left :: ref
  right :: ref

type_synonym 'a store = "addr \<Rightarrow> 'a obj option"

text \<open>Truthiness of a reference: \<^verbatim>\<open>null\<close> and \<^verbatim>\<open>undefined\<close> are falsy, an object is truthy.\<close>

fun truthy :: "ref \<Rightarrow> bool" where
  "truthy (Ref a) = True"
| "truthy Null = False"
| "truthy Undef = False"

text \<open>Reading any property of the object a reference denotes.\<close>

fun deref :: "'a store \<Rightarrow> ref \<Rightarrow> error + 'a obj" where
  "deref h (Ref a) = (case h a of None \<Rightarrow> Inl Dangling | Some ob \<Rightarrow> Inr ob)"
| "deref h Null = Inl TypeError"
| "deref h Undef = Inl TypeError"

text \<open>A property assignment \<^verbatim>\<open>r.f = x\<close>, given as the update \<open>f\<close> of the object.\<close>

fun assign :: "'a store \<Rightarrow> ref \<Rightarrow> ('a obj \<Rightarrow> 'a obj) \<Rightarrow> error + 'a store" where
  "assign h (Ref a) f = (case h a of None \<Rightarrow> Inl Dangling | Some ob \<Rightarrow> Inr (h(a \<mapsto> f ob)))"
| "assign h Null f = Inl TypeError"
| "assign h Undef f = Inl TypeError"

text \<open>\<^verbatim>\<open>new BSTNode(value, parent)\<close> (lines 5-10) and the object literal \<^verbatim>\<open>{left: r}\<close>.\<close>

definition new_BSTNode :: "'a jsval \<Rightarrow> ref \<Rightarrow> 'a obj" where
  "new_BSTNode value p = \<lparr>kind = BSTNode, val = value, parent = p, left = Null, right = Null\<rparr>"

definition plain_left :: "ref \<Rightarrow> 'a obj" where
  "plain_left r = \<lparr>kind = Plain, val = JUndefined, parent = Undef, left = r, right = Undef\<rparr>"

section \<open>The tree object\<close>

text \<open>
  The fields of \<^verbatim>\<open>BinarySearchTree\<close> (\<open>length'\<close> is the source's \<^verbatim>\<open>length\<close>), together
  with the store its nodes live in and the next unused address (\<open>fresh\<close>, the model's
  allocator).
\<close>

record 'a bst =
  root :: ref
  cmp :: "'a jsval \<Rightarrow> 'a jsval \<Rightarrow> bool"
  length' :: int
  heap :: "'a store"
  fresh :: addr

definition alloc :: "'a bst \<Rightarrow> 'a obj \<Rightarrow> addr \<times> 'a bst" where
  "alloc s ob = (fresh s, s\<lparr>heap := (heap s)(fresh s \<mapsto> ob), fresh := Suc (fresh s)\<rparr>)"

text \<open>\<^verbatim>\<open>++this.length\<close> and \<^verbatim>\<open>--this.length\<close>: the new count, and the updated tree.\<close>

definition pre_inc :: "'a bst \<Rightarrow> int jsval \<times> 'a bst" where
  "pre_inc s = (JVal (length' s + 1), s\<lparr>length' := length' s + 1\<rparr>)"

definition pre_dec :: "'a bst \<Rightarrow> int jsval \<times> 'a bst" where
  "pre_dec s = (JVal (length' s - 1), s\<lparr>length' := length' s - 1\<rparr>)"

text \<open>
  A parameter with a default value (\<^verbatim>\<open>parent = this.root\<close>, \<^verbatim>\<open>node = this.root\<close>)
  takes the default when the argument is missing or \<^verbatim>\<open>undefined\<close>, also in a
  recursive call.
\<close>

definition default_arg :: "ref \<Rightarrow> ref \<Rightarrow> ref" where
  "default_arg arg d = (if arg = Undef then d else arg)"

subsection \<open>\<^verbatim>\<open>BSTNode\<close> methods (lines 12-18)\<close>

text \<open>
  A method call on \<^verbatim>\<open>null\<close>, \<^verbatim>\<open>undefined\<close> or an object that is not a \<^verbatim>\<open>BSTNode\<close>
  throws. The recursion follows the links of the store, so on a cyclic store it does not
  return: the result \<open>None\<close>.
\<close>

partial_function (option) getLeftmostDescendant :: "'a store \<Rightarrow> ref \<Rightarrow> (error + ref) option" where
  "getLeftmostDescendant h this =
     (case deref h this of
        Inl e \<Rightarrow> Some (Inl e)
      | Inr ob \<Rightarrow>
          if kind ob \<noteq> BSTNode then Some (Inl TypeError)
          else if truthy (left ob) then getLeftmostDescendant h (left ob)
          else Some (Inr this))"

declare getLeftmostDescendant.simps [code]

partial_function (option) getRightmostDescendant :: "'a store \<Rightarrow> ref \<Rightarrow> (error + ref) option" where
  "getRightmostDescendant h this =
     (case deref h this of
        Inl e \<Rightarrow> Some (Inl e)
      | Inr ob \<Rightarrow>
          if kind ob \<noteq> BSTNode then Some (Inl TypeError)
          else if truthy (right ob) then getRightmostDescendant h (right ob)
          else Some (Inr this))"

declare getRightmostDescendant.simps [code]

subsection \<open>\<^verbatim>\<open>insert\<close> (lines 46-77)\<close>

text \<open>
  \<open>insert_at s value arg\<close> is \<^verbatim>\<open>this.insert(value, arg)\<close>. The two recursive calls of
  the source are statements, not \<^verbatim>\<open>return\<close>ed: the tree they leave is kept and the
  call itself returns \<^verbatim>\<open>undefined\<close>.
\<close>

partial_function (option) insert_at ::
  "'a bst \<Rightarrow> 'a jsval \<Rightarrow> ref \<Rightarrow> (error + int jsval \<times> 'a bst) option" where
  "insert_at s value arg =
     (let p = default_arg arg (root s) in
      if \<not> truthy (root s) then
        (case alloc s (new_BSTNode value Null) of
           (a, s1) \<Rightarrow> Some (Inr (pre_inc (s1\<lparr>root := Ref a\<rparr>))))
      else
        (case deref (heap s) p of
           Inl e \<Rightarrow> Some (Inl e)
         | Inr pob \<Rightarrow>
             if cmp s value (val pob) then
               (if left pob = Null then
                  (case alloc s (new_BSTNode value p) of
                     (a, s1) \<Rightarrow>
                       (case assign (heap s1) p (\<lambda>ob. ob\<lparr>left := Ref a\<rparr>) of
                          Inl e \<Rightarrow> Some (Inl e)
                        | Inr h2 \<Rightarrow> Some (Inr (pre_inc (s1\<lparr>heap := h2\<rparr>)))))
                else
                  Option.bind (insert_at s value (left pob))
                    (\<lambda>res. case res of
                       Inl e \<Rightarrow> Some (Inl e)
                     | Inr (ignored, s') \<Rightarrow> Some (Inr (JUndefined, s'))))
             else
               (if right pob = Null then
                  (case alloc s (new_BSTNode value p) of
                     (a, s1) \<Rightarrow>
                       (case assign (heap s1) p (\<lambda>ob. ob\<lparr>right := Ref a\<rparr>) of
                          Inl e \<Rightarrow> Some (Inl e)
                        | Inr h2 \<Rightarrow> Some (Inr (pre_inc (s1\<lparr>heap := h2\<rparr>)))))
                else
                  Option.bind (insert_at s value (right pob))
                    (\<lambda>res. case res of
                       Inl e \<Rightarrow> Some (Inl e)
                     | Inr (ignored, s') \<Rightarrow> Some (Inr (JUndefined, s'))))))"

declare insert_at.simps [code]

text \<open>The public call \<^verbatim>\<open>insert(value)\<close>, without the second argument.\<close>

definition insert' :: "'a bst \<Rightarrow> 'a jsval \<Rightarrow> (error + int jsval \<times> 'a bst) option" where
  "insert' s value = insert_at s value Undef"

subsection \<open>\<^verbatim>\<open>search\<close> (lines 85-101)\<close>

partial_function (option) search_at ::
  "'a bst \<Rightarrow> 'a jsval \<Rightarrow> ref \<Rightarrow> (error + ref) option" where
  "search_at s value arg =
     (let node = default_arg arg (root s) in
      if \<not> truthy node then Some (Inr node)
      else
        (case deref (heap s) node of
           Inl e \<Rightarrow> Some (Inl e)
         | Inr ob \<Rightarrow>
             if val ob = value then Some (Inr node)
             else if cmp s value (val ob) then search_at s value (left ob)
             else search_at s value (right ob)))"

declare search_at.simps [code]

definition search :: "'a bst \<Rightarrow> 'a jsval \<Rightarrow> (error + ref) option" where
  "search s value = search_at s value Undef"

subsection \<open>\<^verbatim>\<open>remove\<close> (lines 111-155)\<close>

text \<open>Sequencing of steps that may throw.\<close>

definition bindE :: "error + 'b \<Rightarrow> ('b \<Rightarrow> error + 'c) \<Rightarrow> error + 'c" where
  "bindE m f = (case m of Inl e \<Rightarrow> Inl e | Inr x \<Rightarrow> f x)"

text \<open>\<^verbatim>\<open>nodeSide\<close>, the property name \<^verbatim>\<open>'left'\<close> or \<^verbatim>\<open>'right'\<close>, and \<^verbatim>\<open>ob[nodeSide] = x\<close>.\<close>

datatype side = SLeft | SRight

fun set_side :: "side \<Rightarrow> ref \<Rightarrow> 'a obj \<Rightarrow> 'a obj" where
  "set_side SLeft x ob = ob\<lparr>left := x\<rparr>"
| "set_side SRight x ob = ob\<lparr>right := x\<rparr>"

text \<open>
  Lines 126-135, the node with two children: \<^verbatim>\<open>node.value\<close> takes the value of the
  leftmost descendant \<^verbatim>\<open>nextHigher\<close> of \<^verbatim>\<open>node.right\<close>, and \<^verbatim>\<open>nextHigher\<close> is replaced,
  in its parent, by its own right child. Every read is from the store as the writes
  before it left it.
\<close>

definition remove_two :: "'a store \<Rightarrow> ref \<Rightarrow> (error + 'a store) option" where
  "remove_two h node =
     (case deref h node of
        Inl e \<Rightarrow> Some (Inl e)
      | Inr nob \<Rightarrow>
          Option.bind (getLeftmostDescendant h (right nob))
            (\<lambda>res. case res of
               Inl e \<Rightarrow> Some (Inl e)
             | Inr nextHigher \<Rightarrow> Some (
                 bindE (deref h nextHigher) (\<lambda>hob.
                 bindE (assign h node (\<lambda>ob. ob\<lparr>val := val hob\<rparr>)) (\<lambda>h1.
                 bindE (deref h1 nextHigher) (\<lambda>hob1.
                 bindE (deref h1 (parent hob1)) (\<lambda>pob.
                 let nodeSide = (if left pob = nextHigher then SLeft else SRight) in
                 bindE (assign h1 (parent hob1) (set_side nodeSide (right hob1))) (\<lambda>h2.
                 bindE (deref h2 nextHigher) (\<lambda>hob2.
                 if truthy (right hob2)
                 then assign h2 (right hob2) (\<lambda>ob. ob\<lparr>parent := parent hob2\<rparr>)
                 else Inr h2)))))))))"

text \<open>Lines 141-151, the node with at most one child: its parent takes that child.\<close>

definition remove_one :: "'a store \<Rightarrow> ref \<Rightarrow> error + 'a store" where
  "remove_one h node =
     bindE (deref h node) (\<lambda>nob.
     bindE (deref h (parent nob)) (\<lambda>pob.
     let nodeSide = (if left pob = node then SLeft else SRight) in
     if truthy (left nob) then
       bindE (assign h (parent nob) (set_side nodeSide (left nob))) (\<lambda>h1.
       bindE (deref h1 node) (\<lambda>nob1.
       if truthy (left nob1)
       then assign h1 (left nob1) (\<lambda>ob. ob\<lparr>parent := parent nob1\<rparr>)
       else Inr h1))
     else
       bindE (assign h (parent nob) (set_side nodeSide (right nob))) (\<lambda>h1.
       bindE (deref h1 node) (\<lambda>nob1.
       if truthy (right nob1)
       then assign h1 (right nob1) (\<lambda>ob. ob\<lparr>parent := parent nob1\<rparr>)
       else Inr h1))))"

text \<open>
  Lines 118-121: \<^verbatim>\<open>rootParent\<close> stays \<^verbatim>\<open>undefined\<close> unless the node is the root; then a
  new plain object \<^verbatim>\<open>{left: this.root}\<close> is stored in \<^verbatim>\<open>node.parent\<close> and in
  \<^verbatim>\<open>rootParent\<close>.
\<close>

definition remove_rootParent :: "'a bst \<Rightarrow> ref \<Rightarrow> error + ref \<times> 'a bst" where
  "remove_rootParent s node =
     (if node = root s then
        (case alloc s (plain_left (root s)) of
           (b, s1) \<Rightarrow>
             bindE (assign (heap s1) node (\<lambda>ob. ob\<lparr>parent := Ref b\<rparr>)) (\<lambda>h1.
             Inr (Ref b, s1\<lparr>heap := h1\<rparr>)))
      else Inr (Undef, s))"

text \<open>Lines 153-154: the root is read back from \<^verbatim>\<open>rootParent.left\<close>; the count goes down.\<close>

definition remove_finish :: "'a bst \<Rightarrow> ref \<Rightarrow> error + int jsval \<times> 'a bst" where
  "remove_finish s rootParent =
     (if truthy rootParent then
        bindE (deref (heap s) rootParent) (\<lambda>rob. Inr (pre_dec (s\<lparr>root := left rob\<rparr>)))
      else Inr (pre_dec s))"

definition remove' :: "'a bst \<Rightarrow> 'a jsval \<Rightarrow> (error + int jsval \<times> 'a bst) option" where
  "remove' s value =
     Option.bind (search s value)
       (\<lambda>res. case res of
          Inl e \<Rightarrow> Some (Inl e)
        | Inr node \<Rightarrow>
            if \<not> truthy node then Some (Inr (JNull, s))
            else
              (case remove_rootParent s node of
                 Inl e \<Rightarrow> Some (Inl e)
               | Inr (rootParent, s1) \<Rightarrow>
                   (case deref (heap s1) node of
                      Inl e \<Rightarrow> Some (Inl e)
                    | Inr nob \<Rightarrow>
                        Option.bind
                          (if truthy (left nob) \<and> truthy (right nob)
                           then remove_two (heap s1) node
                           else Some (remove_one (heap s1) node))
                          (\<lambda>res2. case res2 of
                             Inl e \<Rightarrow> Some (Inl e)
                           | Inr h2 \<Rightarrow> Some (remove_finish (s1\<lparr>heap := h2\<rparr>) rootParent)))))"

subsection \<open>\<^verbatim>\<open>toArray\<close> (lines 162-173)\<close>

text \<open>
  \<open>toArray_at s arg\<close> is \<^verbatim>\<open>this.toArray(arg)\<close>: it reads \<^verbatim>\<open>node.left\<close> first, whatever
  \<^verbatim>\<open>node\<close> is. (\<^verbatim>\<open>concat\<close> appends the value as one element: the values of the model
  are no arrays.)
\<close>

partial_function (option) toArray_at :: "'a bst \<Rightarrow> ref \<Rightarrow> (error + 'a jsval list) option" where
  "toArray_at s arg =
     (let node = default_arg arg (root s) in
      case deref (heap s) node of
        Inl e \<Rightarrow> Some (Inl e)
      | Inr ob \<Rightarrow>
          Option.bind (if truthy (left ob) then toArray_at s (left ob) else Some (Inr []))
            (\<lambda>res1. case res1 of
               Inl e \<Rightarrow> Some (Inl e)
             | Inr arr1 \<Rightarrow>
                 Option.bind (if truthy (right ob) then toArray_at s (right ob) else Some (Inr []))
                   (\<lambda>res2. case res2 of
                      Inl e \<Rightarrow> Some (Inl e)
                    | Inr arr2 \<Rightarrow> Some (Inr (arr1 @ [val ob] @ arr2)))))"

declare toArray_at.simps [code]

definition toArray :: "'a bst \<Rightarrow> (error + 'a jsval list) option" where
  "toArray s = toArray_at s Undef"

subsection \<open>\<^verbatim>\<open>getPredecessor\<close> and \<^verbatim>\<open>getSuccessor\<close> (lines 181-205)\<close>

text \<open>
  The \<^verbatim>\<open>while\<close> statements of lines 185-186 and 201-202: the result is the final
  \<^verbatim>\<open>foundNode\<close>.
\<close>

partial_function (option) getPredecessor_loop :: "'a store \<Rightarrow> ref \<Rightarrow> (error + ref) option" where
  "getPredecessor_loop h foundNode =
     (case deref h foundNode of
        Inl e \<Rightarrow> Some (Inl e)
      | Inr fob \<Rightarrow>
          if \<not> truthy (parent fob) then Some (Inr foundNode)
          else
            (case deref h (parent fob) of
               Inl e \<Rightarrow> Some (Inl e)
             | Inr pob \<Rightarrow>
                 if left pob = foundNode then getPredecessor_loop h (parent fob)
                 else Some (Inr foundNode)))"

declare getPredecessor_loop.simps [code]

partial_function (option) getSuccessor_loop :: "'a store \<Rightarrow> ref \<Rightarrow> (error + ref) option" where
  "getSuccessor_loop h foundNode =
     (case deref h foundNode of
        Inl e \<Rightarrow> Some (Inl e)
      | Inr fob \<Rightarrow>
          if \<not> truthy (parent fob) then Some (Inr foundNode)
          else
            (case deref h (parent fob) of
               Inl e \<Rightarrow> Some (Inl e)
             | Inr pob \<Rightarrow>
                 if right pob = foundNode then getSuccessor_loop h (parent fob)
                 else Some (Inr foundNode)))"

declare getSuccessor_loop.simps [code]

text \<open>Lines 187-188 and 203-204, after the loop.\<close>

definition parent_value :: "'a store \<Rightarrow> ref \<Rightarrow> error + 'a jsval" where
  "parent_value h foundNode =
     bindE (deref h foundNode) (\<lambda>fob.
     if \<not> truthy (parent fob) then Inr JNull
     else bindE (deref h (parent fob)) (\<lambda>pob. Inr (val pob)))"

definition getPredecessor :: "'a bst \<Rightarrow> 'a jsval \<Rightarrow> (error + 'a jsval) option" where
  "getPredecessor s value =
     Option.bind (search s value)
       (\<lambda>res. case res of
          Inl e \<Rightarrow> Some (Inl e)
        | Inr foundNode \<Rightarrow>
            if \<not> truthy foundNode then Some (Inr JNull)
            else
              (case deref (heap s) foundNode of
                 Inl e \<Rightarrow> Some (Inl e)
               | Inr fob \<Rightarrow>
                   if truthy (left fob) then
                     Option.bind (getRightmostDescendant (heap s) (left fob))
                       (\<lambda>res2. case res2 of
                          Inl e \<Rightarrow> Some (Inl e)
                        | Inr d \<Rightarrow> Some (bindE (deref (heap s) d) (\<lambda>dob. Inr (val dob))))
                   else
                     Option.bind (getPredecessor_loop (heap s) foundNode)
                       (\<lambda>res2. case res2 of
                          Inl e \<Rightarrow> Some (Inl e)
                        | Inr final \<Rightarrow> Some (parent_value (heap s) final))))"

definition getSuccessor :: "'a bst \<Rightarrow> 'a jsval \<Rightarrow> (error + 'a jsval) option" where
  "getSuccessor s value =
     Option.bind (search s value)
       (\<lambda>res. case res of
          Inl e \<Rightarrow> Some (Inl e)
        | Inr foundNode \<Rightarrow>
            if \<not> truthy foundNode then Some (Inr JNull)
            else
              (case deref (heap s) foundNode of
                 Inl e \<Rightarrow> Some (Inl e)
               | Inr fob \<Rightarrow>
                   if truthy (right fob) then
                     Option.bind (getLeftmostDescendant (heap s) (right fob))
                       (\<lambda>res2. case res2 of
                          Inl e \<Rightarrow> Some (Inl e)
                        | Inr d \<Rightarrow> Some (bindE (deref (heap s) d) (\<lambda>dob. Inr (val dob))))
                   else
                     Option.bind (getSuccessor_loop (heap s) foundNode)
                       (\<lambda>res2. case res2 of
                          Inl e \<Rightarrow> Some (Inl e)
                        | Inr final \<Rightarrow> Some (parent_value (heap s) final))))"

subsection \<open>The constructor (lines 33-38) and the default ordering\<close>

text \<open>
  \<^verbatim>\<open>(a, b) => a < b\<close> on numbers, \<^verbatim>\<open>null\<close> and \<^verbatim>\<open>undefined\<close>: \<^verbatim>\<open>null\<close> converts to 0
  and \<^verbatim>\<open>undefined\<close> to \<^verbatim>\<open>NaN\<close>, which is less than nothing and has nothing less than it.
\<close>

fun to_number :: "int jsval \<Rightarrow> int option" where
  "to_number (JVal n) = Some n"
| "to_number JNull = Some 0"
| "to_number JUndefined = None"

definition default_cmp :: "int jsval \<Rightarrow> int jsval \<Rightarrow> bool" where
  "default_cmp a b =
     (case to_number a of
        None \<Rightarrow> False
      | Some x \<Rightarrow> (case to_number b of None \<Rightarrow> False | Some y \<Rightarrow> x < y))"

definition empty_tree :: "('a jsval \<Rightarrow> 'a jsval \<Rightarrow> bool) \<Rightarrow> 'a bst" where
  "empty_tree c = \<lparr>root = Null, cmp = c, length' = 0, heap = Map.empty, fresh = 0\<rparr>"

text \<open>\<^verbatim>\<open>list.forEach(item => this.insert(item))\<close>: an exception ends the loop.\<close>

fun insert_each :: "'a bst \<Rightarrow> 'a jsval list \<Rightarrow> (error + 'a bst) option" where
  "insert_each s [] = Some (Inr s)"
| "insert_each s (item # items) =
     Option.bind (insert' s item)
       (\<lambda>res. case res of
          Inl e \<Rightarrow> Some (Inl e)
        | Inr (n, s') \<Rightarrow> insert_each s' items)"

definition BinarySearchTree ::
  "'a jsval list \<Rightarrow> ('a jsval \<Rightarrow> 'a jsval \<Rightarrow> bool) \<Rightarrow> (error + 'a bst) option" where
  "BinarySearchTree list c = insert_each (empty_tree c) list"

section \<open>Specification-level definitions\<close>

text \<open>
  What follows is not taken from the source: it is the vocabulary in which the
  properties of the source are stated and proved. A \<open>shape\<close> is the binary tree that a
  region of the store represents, each node with its address and its value.
\<close>

subsection \<open>Shapes and the representation relation\<close>

datatype 'a shape = Tip | Br "'a shape" addr "'a jsval" "'a shape"

fun addrs :: "'a shape \<Rightarrow> addr list" where
  "addrs Tip = []"
| "addrs (Br l a x r) = addrs l @ a # addrs r"

fun vals :: "'a shape \<Rightarrow> 'a jsval list" where
  "vals Tip = []"
| "vals (Br l a x r) = vals l @ x # vals r"

fun rt :: "'a shape \<Rightarrow> ref" where
  "rt Tip = Null"
| "rt (Br l a x r) = Ref a"

text \<open>
  \<open>tree_at h p t\<close>: in the store \<open>h\<close>, the nodes of \<open>t\<close> are \<^verbatim>\<open>BSTNode\<close> objects at
  the addresses \<open>t\<close> gives, with the values and child links of \<open>t\<close>; the root's
  \<^verbatim>\<open>parent\<close> is \<open>p\<close> and every other node's \<^verbatim>\<open>parent\<close> is the node above it.
\<close>

fun tree_at :: "'a store \<Rightarrow> ref \<Rightarrow> 'a shape \<Rightarrow> bool" where
  "tree_at h p Tip = True"
| "tree_at h p (Br l a x r) =
     (h a = Some \<lparr>kind = BSTNode, val = x, parent = p, left = rt l, right = rt r\<rparr>
      \<and> tree_at h (Ref a) l \<and> tree_at h (Ref a) r)"

subsection \<open>The operations on shapes\<close>

text \<open>
  \<open>find_node\<close> is the node \<^verbatim>\<open>search\<close> reaches, \<open>ins\<close> the shape after \<^verbatim>\<open>insert\<close>
  attaches a node at the new address \<open>n\<close>, \<open>rem\<close> the shape after \<^verbatim>\<open>remove\<close> took the
  node at address \<open>a\<close> out.
\<close>

fun find_node :: "('a jsval \<Rightarrow> 'a jsval \<Rightarrow> bool) \<Rightarrow> 'a jsval \<Rightarrow> 'a shape \<Rightarrow> ref" where
  "find_node c v Tip = Null"
| "find_node c v (Br l a x r) = (if x = v then Ref a else if c v x then find_node c v l else find_node c v r)"

fun leftmost :: "'a shape \<Rightarrow> addr \<times> 'a jsval" where
  "leftmost (Br l a x r) = (if l = Tip then (a, x) else leftmost l)"
| "leftmost Tip = (0, JUndefined)"

fun rightmost :: "'a shape \<Rightarrow> addr \<times> 'a jsval" where
  "rightmost (Br l a x r) = (if r = Tip then (a, x) else rightmost r)"
| "rightmost Tip = (0, JUndefined)"

fun ins :: "('a jsval \<Rightarrow> 'a jsval \<Rightarrow> bool) \<Rightarrow> 'a jsval \<Rightarrow> addr \<Rightarrow> 'a shape \<Rightarrow> 'a shape" where
  "ins c v n Tip = Br Tip n v Tip"
| "ins c v n (Br l a x r) = (if c v x then Br (ins c v n l) a x r else Br l a x (ins c v n r))"

fun subtree :: "addr \<Rightarrow> 'a shape \<Rightarrow> 'a shape" where
  "subtree a Tip = Tip"
| "subtree a (Br l b x r) =
     (if a = b then Br l b x r else if a \<in> set (addrs l) then subtree a l else subtree a r)"

fun del_min :: "'a shape \<Rightarrow> 'a shape" where
  "del_min (Br l a x r) = (if l = Tip then r else Br (del_min l) a x r)"
| "del_min Tip = Tip"

fun rem :: "addr \<Rightarrow> 'a shape \<Rightarrow> 'a shape" where
  "rem a Tip = Tip"
| "rem a (Br l b x r) =
     (if a = b then
        (if l \<noteq> Tip \<and> r \<noteq> Tip then Br l b (snd (leftmost r)) (del_min r)
         else if l \<noteq> Tip then l else r)
      else if a \<in> set (addrs l) then Br (rem a l) b x r
      else Br l b x (rem a r))"

subsection \<open>Well-formed trees\<close>

text \<open>
  The \<^verbatim>\<open>parent\<close> of the root is \<^verbatim>\<open>null\<close>, or it is the plain object that an earlier
  \<^verbatim>\<open>remove\<close> of a root put there, whose \<^verbatim>\<open>left\<close> is the present root.
\<close>

definition root_parent_ok :: "'a bst \<Rightarrow> 'a shape \<Rightarrow> ref \<Rightarrow> bool" where
  "root_parent_ok s T P =
     (P = Null \<or> (\<exists>q. P = Ref q \<and> q < fresh s \<and> q \<notin> set (addrs T)
                      \<and> heap s q = Some (plain_left (rt T))))"

definition wf :: "'a bst \<Rightarrow> 'a shape \<Rightarrow> ref \<Rightarrow> bool" where
  "wf s T P =
     (root s = rt T \<and> tree_at (heap s) P T \<and> distinct (addrs T)
      \<and> (\<forall>a\<in>set (addrs T). a < fresh s) \<and> length' s = int (length (addrs T))
      \<and> root_parent_ok s T P)"

definition remv :: "('a jsval \<Rightarrow> 'a jsval \<Rightarrow> bool) \<Rightarrow> 'a jsval \<Rightarrow> 'a shape \<Rightarrow> 'a shape" where
  "remv c v T = (case find_node c v T of Ref a \<Rightarrow> rem a T | Null \<Rightarrow> T | Undef \<Rightarrow> T)"

subsection \<open>Sequences of calls\<close>

text \<open>
  A client's calls of the two mutating methods, run one after another from a tree;
  \<open>run\<close> gives the values the calls returned and the tree they left, and stops at the
  first exception.
\<close>

datatype 'a op = Insert "'a jsval" | Remove "'a jsval"

fun exec :: "'a bst \<Rightarrow> 'a op \<Rightarrow> (error + int jsval \<times> 'a bst) option" where
  "exec s (Insert v) = insert' s v"
| "exec s (Remove v) = remove' s v"

fun run :: "'a bst \<Rightarrow> 'a op list \<Rightarrow> (error + int jsval list \<times> 'a bst) option" where
  "run s [] = Some (Inr ([], s))"
| "run s (x # xs) =
     Option.bind (exec s x)
       (\<lambda>res. case res of
          Inl e \<Rightarrow> Some (Inl e)
        | Inr (ret, s') \<Rightarrow>
            Option.bind (run s' xs)
              (\<lambda>res'. case res' of
                 Inl e \<Rightarrow> Some (Inl e)
               | Inr (rets, s'') \<Rightarrow> Some (Inr (ret # rets, s''))))"

text \<open>A tree with one node, as \<^verbatim>\<open>new BinarySearchTree([n])\<close> builds it.\<close>

definition one_node :: "int \<Rightarrow> int bst" where
  "one_node n =
     \<lparr>root = Ref 0, cmp = default_cmp, length' = 1,
      heap = [0 \<mapsto> new_BSTNode (JVal n) Null], fresh = 1\<rparr>"

text \<open>The nodes reachable from a reference through \<^verbatim>\<open>left\<close> and \<^verbatim>\<open>right\<close> links.\<close>

inductive reach :: "'a store \<Rightarrow> ref \<Rightarrow> addr \<Rightarrow> bool" for h :: "'a store" where
  reach_here: "reach h (Ref a) a"
| reach_left: "h a = Some ob \<Longrightarrow> reach h (left ob) b \<Longrightarrow> reach h (Ref a) b"
| reach_right: "h a = Some ob \<Longrightarrow> reach h (right ob) b \<Longrightarrow> reach h (Ref a) b"

text \<open>The shape, and the next unused address, after each call.\<close>

fun astep :: "('a jsval \<Rightarrow> 'a jsval \<Rightarrow> bool) \<Rightarrow> 'a op \<Rightarrow> 'a shape \<times> addr \<Rightarrow> 'a shape \<times> addr" where
  "astep c (Insert v) (T, n) = (ins c v n T, Suc n)"
| "astep c (Remove v) (T, n) =
     (remv c v T, if find_node c v T \<noteq> Null \<and> find_node c v T = rt T then Suc n else n)"

fun arun :: "('a jsval \<Rightarrow> 'a jsval \<Rightarrow> bool) \<Rightarrow> 'a op list \<Rightarrow> 'a shape \<times> addr \<Rightarrow> 'a shape \<times> addr" where
  "arun c [] st = st"
| "arun c (x # xs) st = arun c xs (astep c x st)"

text \<open>
  The number of \<^verbatim>\<open>insert\<close> calls of a sequence, and the number of its \<^verbatim>\<open>remove\<close>
  calls that returned a count rather than \<^verbatim>\<open>null\<close>.
\<close>

fun inserted :: "'a op list \<Rightarrow> nat" where
  "inserted [] = 0"
| "inserted (Insert v # xs) = Suc (inserted xs)"
| "inserted (Remove v # xs) = inserted xs"

fun removed :: "'a op list \<Rightarrow> int jsval list \<Rightarrow> nat" where
  "removed (Remove v # xs) (ret # rets) = (if ret = JNull then 0 else 1) + removed xs rets"
| "removed (Insert v # xs) (ret # rets) = removed xs rets"
| "removed xs rets = 0"

subsection \<open>Orderings, search trees and sorted sequences\<close>

text \<open>
  The comparison function is a strict total order on a set \<open>A\<close> of values (those a
  client inserts). \<open>search_tree\<close> is the search-tree property with ties to the right;
  \<open>ascending\<close> says that no element is less than an earlier one.
\<close>

definition strict_total_on :: "'v set \<Rightarrow> ('v \<Rightarrow> 'v \<Rightarrow> bool) \<Rightarrow> bool" where
  "strict_total_on A c =
     ((\<forall>x\<in>A. \<not> c x x)
      \<and> (\<forall>x\<in>A. \<forall>y\<in>A. \<forall>z\<in>A. c x y \<longrightarrow> c y z \<longrightarrow> c x z)
      \<and> (\<forall>x\<in>A. \<forall>y\<in>A. x \<noteq> y \<longrightarrow> c x y \<or> c y x))"

fun search_tree :: "('a jsval \<Rightarrow> 'a jsval \<Rightarrow> bool) \<Rightarrow> 'a shape \<Rightarrow> bool" where
  "search_tree c Tip = True"
| "search_tree c (Br l a x r) =
     (search_tree c l \<and> search_tree c r \<and> (\<forall>y\<in>set (vals l). c y x) \<and> (\<forall>y\<in>set (vals r). \<not> c y x))"

fun ascending :: "('v \<Rightarrow> 'v \<Rightarrow> bool) \<Rightarrow> 'v list \<Rightarrow> bool" where
  "ascending c [] = True"
| "ascending c (x # xs) = ((\<forall>y\<in>set xs. \<not> c y x) \<and> ascending c xs)"

text \<open>
  The inserted values of a sequence of calls lie in \<open>A\<close>; \<open>stored acc xs\<close> are the
  elements stored after the calls \<open>xs\<close>, from the elements \<open>acc\<close>: each \<^verbatim>\<open>remove\<close>
  takes one occurrence of its value away, if there is one.
\<close>

fun inserts_in :: "'a jsval set \<Rightarrow> 'a op list \<Rightarrow> bool" where
  "inserts_in A [] = True"
| "inserts_in A (Insert v # xs) = (v \<in> A \<and> inserts_in A xs)"
| "inserts_in A (Remove v # xs) = inserts_in A xs"

fun stored :: "'a jsval list \<Rightarrow> 'a op list \<Rightarrow> 'a jsval list" where
  "stored acc [] = acc"
| "stored acc (Insert v # xs) = stored (v # acc) xs"
| "stored acc (Remove v # xs) = stored (remove1 v acc) xs"

subsection \<open>Predecessor and successor in a shape\<close>

text \<open>
  \<open>up_pred a T\<close> is the value of the first ancestor that the node at \<open>a\<close> lies to the
  right of, \<open>up_succ\<close> the first it lies to the left of; \<open>pred_fun\<close> and \<open>succ_fun\<close>
  add the case of a left or right subtree. \<open>prev_of\<close> and \<open>next_of\<close> are the neighbours
  in the in-order sequence.
\<close>

fun up_pred :: "addr \<Rightarrow> 'a shape \<Rightarrow> 'a jsval option" where
  "up_pred a Tip = None"
| "up_pred a (Br l b x r) =
     (if a = b then None
      else if a \<in> set (addrs l) then up_pred a l
      else (case up_pred a r of None \<Rightarrow> Some x | Some y \<Rightarrow> Some y))"

fun up_succ :: "addr \<Rightarrow> 'a shape \<Rightarrow> 'a jsval option" where
  "up_succ a Tip = None"
| "up_succ a (Br l b x r) =
     (if a = b then None
      else if a \<in> set (addrs l) then (case up_succ a l of None \<Rightarrow> Some x | Some y \<Rightarrow> Some y)
      else up_succ a r)"

definition pred_fun :: "addr \<Rightarrow> 'a shape \<Rightarrow> 'a jsval option" where
  "pred_fun a T =
     (case subtree a T of
        Tip \<Rightarrow> None
      | Br l b x r \<Rightarrow> if l \<noteq> Tip then Some (snd (rightmost l)) else up_pred a T)"

definition succ_fun :: "addr \<Rightarrow> 'a shape \<Rightarrow> 'a jsval option" where
  "succ_fun a T =
     (case subtree a T of
        Tip \<Rightarrow> None
      | Br l b x r \<Rightarrow> if r \<noteq> Tip then Some (snd (leftmost r)) else up_succ a T)"

fun inorder :: "'a shape \<Rightarrow> (addr \<times> 'a jsval) list" where
  "inorder Tip = []"
| "inorder (Br l a x r) = inorder l @ (a, x) # inorder r"

fun prev_of :: "addr \<Rightarrow> (addr \<times> 'v) list \<Rightarrow> 'v option" where
  "prev_of a (e1 # e2 # es) = (if fst e2 = a then Some (snd e1) else prev_of a (e2 # es))"
| "prev_of a es = None"

fun next_of :: "addr \<Rightarrow> (addr \<times> 'v) list \<Rightarrow> 'v option" where
  "next_of a (e1 # e2 # es) = (if fst e1 = a then Some (snd e2) else next_of a (e2 # es))"
| "next_of a es = None"

section \<open>The store represents a shape: what each method does to it\<close>

subsection \<open>Default parameters and the references of shapes\<close>

lemma default_arg_simps [simp]:
  "default_arg (Ref a) d = Ref a" "default_arg Null d = Null" "default_arg Undef d = d"
  by (simp_all add: default_arg_def)

lemma default_arg_rt [simp]: "default_arg (rt t) d = rt t"
  by (cases t) simp_all

lemma insert_at_default: "insert_at s v Undef = insert_at s v (root s)"
  by (simp add: insert_at.simps [of s v Undef] insert_at.simps [of s v "root s"] default_arg_def)

lemma search_at_default: "search_at s v Undef = search_at s v (root s)"
  by (simp add: search_at.simps [of s v Undef] search_at.simps [of s v "root s"] default_arg_def)

lemma toArray_at_default: "toArray_at s Undef = toArray_at s (root s)"
  by (simp add: toArray_at.simps [of s Undef] toArray_at.simps [of s "root s"] default_arg_def)

lemma truthy_rt: "truthy (rt t) = (t \<noteq> Tip)"
  by (cases t) simp_all

lemma rt_Null: "(rt t = Null) = (t = Tip)"
  by (cases t) simp_all

lemma rt_Ref: "rt t = Ref a \<Longrightarrow> a \<in> set (addrs t)"
  by (cases t) simp_all

text \<open>The relation looks at the store only at the addresses of the shape.\<close>

lemma tree_at_frame:
  "(\<And>a. a \<in> set (addrs t) \<Longrightarrow> h' a = h a) \<Longrightarrow> tree_at h' p t = tree_at h p t"
  by (induction t arbitrary: p) auto

subsection \<open>The traversals follow the shape\<close>

lemma toArray_at_shape:
  "tree_at (heap s) p t \<Longrightarrow> t \<noteq> Tip \<Longrightarrow> toArray_at s (rt t) = Some (Inr (vals t))"
proof (induction t arbitrary: p)
  case Tip
  then show ?case by simp
next
  case (Br l a x r)
  have L: "l \<noteq> Tip \<Longrightarrow> toArray_at s (rt l) = Some (Inr (vals l))"
    using Br.IH(1) Br.prems(1) by auto
  have R: "r \<noteq> Tip \<Longrightarrow> toArray_at s (rt r) = Some (Inr (vals r))"
    using Br.IH(2) Br.prems(1) by auto
  show ?case
    using Br.prems(1) L R
    by (subst toArray_at.simps) (cases "l = Tip"; cases "r = Tip"; simp add: truthy_rt Let_def)
qed

lemma search_at_shape:
  "tree_at (heap s) p t \<Longrightarrow> search_at s v (rt t) = Some (Inr (find_node (cmp s) v t))"
proof (induction t arbitrary: p)
  case Tip
  then show ?case by (subst search_at.simps) (simp add: Let_def)
next
  case (Br l a x r)
  then show ?case by (subst search_at.simps) (auto simp: Let_def)
qed

lemma getLeftmostDescendant_shape:
  "tree_at h p t \<Longrightarrow> t \<noteq> Tip \<Longrightarrow>
   getLeftmostDescendant h (rt t) = Some (Inr (Ref (fst (leftmost t))))"
proof (induction t arbitrary: p)
  case Tip
  then show ?case by simp
next
  case (Br l a x r)
  then show ?case by (subst getLeftmostDescendant.simps) (auto simp: truthy_rt)
qed

lemma getRightmostDescendant_shape:
  "tree_at h p t \<Longrightarrow> t \<noteq> Tip \<Longrightarrow>
   getRightmostDescendant h (rt t) = Some (Inr (Ref (fst (rightmost t))))"
proof (induction t arbitrary: p)
  case Tip
  then show ?case by simp
next
  case (Br l a x r)
  then show ?case by (subst getRightmostDescendant.simps) (auto simp: truthy_rt)
qed

subsection \<open>\<^verbatim>\<open>insert\<close> attaches one node\<close>

lemma rt_ins: "t \<noteq> Tip \<Longrightarrow> rt (ins c v n t) = rt t"
  by (cases t) simp_all

lemma insert_at_shape:
  "tree_at (heap s) p t \<Longrightarrow> t \<noteq> Tip \<Longrightarrow> truthy (root s) \<Longrightarrow> distinct (addrs t) \<Longrightarrow>
   \<forall>a\<in>set (addrs t). a < fresh s \<Longrightarrow>
   \<exists>ret H. insert_at s v (rt t) =
       Some (Inr (ret, s\<lparr>length' := length' s + 1, heap := H, fresh := Suc (fresh s)\<rparr>))
     \<and> tree_at H p (ins (cmp s) v (fresh s) t)
     \<and> (\<forall>b. b \<notin> set (addrs t) \<longrightarrow> b \<noteq> fresh s \<longrightarrow> H b = heap s b)"
proof (induction t arbitrary: p)
  case Tip
  then show ?case by simp
next
  case (Br l a x r)
  let ?n = "fresh s"
  have ha: "heap s a = Some \<lparr>kind = BSTNode, val = x, parent = p, left = rt l, right = rt r\<rparr>"
    and tl: "tree_at (heap s) (Ref a) l" and tr: "tree_at (heap s) (Ref a) r"
    using Br.prems(1) by auto
  have an: "a \<noteq> ?n" and ln: "?n \<notin> set (addrs l)" and rn: "?n \<notin> set (addrs r)"
    using Br.prems(5) by auto
  have al: "a \<notin> set (addrs l)" and ar: "a \<notin> set (addrs r)"
    and lr: "set (addrs l) \<inter> set (addrs r) = {}"
    using Br.prems(4) by auto
  show ?case
  proof (cases "cmp s v x")
    case True
    show ?thesis
    proof (cases "l = Tip")
      case lTip: True
      let ?H = "(heap s)(?n \<mapsto> new_BSTNode v (Ref a),
                 a \<mapsto> \<lparr>kind = BSTNode, val = x, parent = p, left = Ref ?n, right = rt r\<rparr>)"
      have "insert_at s v (rt (Br l a x r)) =
          Some (Inr (JVal (length' s + 1), s\<lparr>length' := length' s + 1, heap := ?H, fresh := Suc ?n\<rparr>))"
        using True lTip ha an Br.prems(3)
        by (subst insert_at.simps) (simp add: alloc_def pre_inc_def Let_def)
      moreover have "tree_at ?H p (ins (cmp s) v ?n (Br l a x r))"
      proof -
        have "tree_at ?H (Ref a) r = tree_at (heap s) (Ref a) r"
          using rn ar by (intro tree_at_frame) auto
        then show ?thesis using True lTip an tr by (simp add: new_BSTNode_def)
      qed
      moreover have "\<forall>b. b \<notin> set (addrs (Br l a x r)) \<longrightarrow> b \<noteq> ?n \<longrightarrow> ?H b = heap s b"
        by simp
      ultimately show ?thesis by blast
    next
      case lBr: False
      from Br.IH(1) [OF tl lBr Br.prems(3)] Br.prems(4,5)
      obtain ret H where
        i: "insert_at s v (rt l) =
              Some (Inr (ret, s\<lparr>length' := length' s + 1, heap := H, fresh := Suc ?n\<rparr>))"
        and t': "tree_at H (Ref a) (ins (cmp s) v ?n l)"
        and fr: "\<forall>b. b \<notin> set (addrs l) \<longrightarrow> b \<noteq> ?n \<longrightarrow> H b = heap s b"
        by auto
      have "insert_at s v (rt (Br l a x r)) =
          Some (Inr (JUndefined, s\<lparr>length' := length' s + 1, heap := H, fresh := Suc ?n\<rparr>))"
        using True lBr ha i Br.prems(3)
        by (subst insert_at.simps) (simp add: rt_Null Let_def)
      moreover have "tree_at H p (ins (cmp s) v ?n (Br l a x r))"
      proof -
        have "H a = heap s a" using fr al an by simp
        moreover have "tree_at H (Ref a) r = tree_at (heap s) (Ref a) r"
          using fr lr rn by (intro tree_at_frame) auto
        ultimately show ?thesis using True ha t' tr lBr by (simp add: rt_ins)
      qed
      moreover have "\<forall>b. b \<notin> set (addrs (Br l a x r)) \<longrightarrow> b \<noteq> ?n \<longrightarrow> H b = heap s b"
        using fr by simp
      ultimately show ?thesis by blast
    qed
  next
    case False
    show ?thesis
    proof (cases "r = Tip")
      case rTip: True
      let ?H = "(heap s)(?n \<mapsto> new_BSTNode v (Ref a),
                 a \<mapsto> \<lparr>kind = BSTNode, val = x, parent = p, left = rt l, right = Ref ?n\<rparr>)"
      have "insert_at s v (rt (Br l a x r)) =
          Some (Inr (JVal (length' s + 1), s\<lparr>length' := length' s + 1, heap := ?H, fresh := Suc ?n\<rparr>))"
        using False rTip ha an Br.prems(3)
        by (subst insert_at.simps) (simp add: alloc_def pre_inc_def Let_def)
      moreover have "tree_at ?H p (ins (cmp s) v ?n (Br l a x r))"
      proof -
        have "tree_at ?H (Ref a) l = tree_at (heap s) (Ref a) l"
          using ln al by (intro tree_at_frame) auto
        then show ?thesis using False rTip an tl by (simp add: new_BSTNode_def)
      qed
      moreover have "\<forall>b. b \<notin> set (addrs (Br l a x r)) \<longrightarrow> b \<noteq> ?n \<longrightarrow> ?H b = heap s b"
        by simp
      ultimately show ?thesis by blast
    next
      case rBr: False
      from Br.IH(2) [OF tr rBr Br.prems(3)] Br.prems(4,5)
      obtain ret H where
        i: "insert_at s v (rt r) =
              Some (Inr (ret, s\<lparr>length' := length' s + 1, heap := H, fresh := Suc ?n\<rparr>))"
        and t': "tree_at H (Ref a) (ins (cmp s) v ?n r)"
        and fr: "\<forall>b. b \<notin> set (addrs r) \<longrightarrow> b \<noteq> ?n \<longrightarrow> H b = heap s b"
        by auto
      have "insert_at s v (rt (Br l a x r)) =
          Some (Inr (JUndefined, s\<lparr>length' := length' s + 1, heap := H, fresh := Suc ?n\<rparr>))"
        using False rBr ha i Br.prems(3)
        by (subst insert_at.simps) (simp add: rt_Null Let_def)
      moreover have "tree_at H p (ins (cmp s) v ?n (Br l a x r))"
      proof -
        have "H a = heap s a" using fr ar an by simp
        moreover have "tree_at H (Ref a) l = tree_at (heap s) (Ref a) l"
          using fr lr ln by (intro tree_at_frame) auto
        ultimately show ?thesis using False ha t' tl rBr by (simp add: rt_ins)
      qed
      moreover have "\<forall>b. b \<notin> set (addrs (Br l a x r)) \<longrightarrow> b \<noteq> ?n \<longrightarrow> H b = heap s b"
        using fr by simp
      ultimately show ?thesis by blast
    qed
  qed
qed

subsection \<open>\<^verbatim>\<open>remove\<close>: the node with at most one child\<close>

lemma tree_at_reparent:
  assumes "tree_at h p (Br l a x r)" "a \<notin> set (addrs l)" "a \<notin> set (addrs r)"
  shows "tree_at (h(a \<mapsto> \<lparr>kind = BSTNode, val = x, parent = p', left = rt l, right = rt r\<rparr>))
           p' (Br l a x r)"
proof -
  let ?h = "h(a \<mapsto> \<lparr>kind = BSTNode, val = x, parent = p', left = rt l, right = rt r\<rparr>)"
  have "tree_at ?h (Ref a) l = tree_at h (Ref a) l"
    using assms(2) by (intro tree_at_frame) auto
  moreover have "tree_at ?h (Ref a) r = tree_at h (Ref a) r"
    using assms(3) by (intro tree_at_frame) auto
  ultimately show ?thesis using assms(1) by auto
qed

lemma remove_one_root:
  assumes t: "tree_at h (Ref q) (Br l a x r)"
    and one: "l = Tip \<or> r = Tip"
    and q: "h q = Some pob" "q \<notin> set (addrs (Br l a x r))"
    and d: "distinct (addrs (Br l a x r))"
  shows "\<exists>h'. remove_one h (Ref a) = Inr h'
     \<and> tree_at h' (Ref q) (rem a (Br l a x r))
     \<and> h' q = Some (set_side (if left pob = Ref a then SLeft else SRight) (rt (rem a (Br l a x r))) pob)
     \<and> (\<forall>b. b \<notin> set (addrs (Br l a x r)) \<longrightarrow> b \<noteq> q \<longrightarrow> h' b = h b)"
proof -
  let ?sd = "if left pob = Ref a then SLeft else SRight"
  let ?c = "if l \<noteq> Tip then l else r"
  have ha: "h a = Some \<lparr>kind = BSTNode, val = x, parent = Ref q, left = rt l, right = rt r\<rparr>"
    using t by simp
  have qa: "q \<noteq> a" using q(2) by auto
  have rem: "rem a (Br l a x r) = ?c" using one by auto
  let ?h1 = "h(q \<mapsto> set_side ?sd (rt ?c) pob)"
  show ?thesis
  proof (cases ?c)
    case Tip
    have "remove_one h (Ref a) = Inr ?h1"
      using ha q(1) qa Tip one
      by (auto simp: remove_one_def bindE_def truthy_rt rt_Null split: if_splits)
    then show ?thesis using Tip rem by auto
  next
    case (Br cl ca cx cr)
    have tc: "tree_at h (Ref a) ?c" using t by auto
    have cin: "set (addrs ?c) \<subseteq> set (addrs (Br l a x r))" by auto
    have hca: "h ca = Some \<lparr>kind = BSTNode, val = cx, parent = Ref a, left = rt cl, right = rt cr\<rparr>"
      using tc Br by simp
    have ca: "ca \<noteq> q" "ca \<noteq> a" "ca \<notin> set (addrs cl)" "ca \<notin> set (addrs cr)"
      "q \<notin> set (addrs cl)" "q \<notin> set (addrs cr)"
      using q(2) d Br by (auto split: if_splits)
    let ?h2 = "?h1(ca \<mapsto> \<lparr>kind = BSTNode, val = cx, parent = Ref q, left = rt cl, right = rt cr\<rparr>)"
    have "remove_one h (Ref a) = Inr ?h2"
      using ha q(1) qa Br one hca ca
      by (auto simp: remove_one_def bindE_def truthy_rt rt_Null split: if_splits)
    moreover have "tree_at ?h2 (Ref q) ?c"
    proof -
      have "tree_at ?h2 (Ref ca) cl = tree_at h (Ref ca) cl"
        using ca by (intro tree_at_frame) auto
      moreover have "tree_at ?h2 (Ref ca) cr = tree_at h (Ref ca) cr"
        using ca by (intro tree_at_frame) auto
      ultimately have "tree_at ?h2 (Ref q) (Br cl ca cx cr)" using tc Br by simp
      then show ?thesis using Br by simp
    qed
    moreover have "?h2 q = Some (set_side ?sd (rt ?c) pob)" using ca by simp
    moreover have "\<forall>b. b \<notin> set (addrs (Br l a x r)) \<longrightarrow> b \<noteq> q \<longrightarrow> ?h2 b = h b"
      using Br by (auto split: if_splits)
    ultimately show ?thesis unfolding rem by (intro exI [of _ ?h2] conjI)
  qed
qed

lemma subtree_root: "rt T = Ref a \<Longrightarrow> subtree a T = T"
  by (cases T) simp_all

lemma subtree_notin: "a \<notin> set (addrs T) \<Longrightarrow> subtree a T = Tip"
  by (induction T) auto

lemma subtree_Br: "subtree a T = Br l b x r \<Longrightarrow> b = a \<and> a \<in> set (addrs T)"
  by (induction T) (auto split: if_splits)

lemma rt_rem: "rt T \<noteq> Ref a \<Longrightarrow> rt (rem a T) = rt T"
  by (cases T) simp_all

lemma remove_one_inner:
  "tree_at h P T \<Longrightarrow> distinct (addrs T) \<Longrightarrow> subtree a T = Br l a x r \<Longrightarrow> l = Tip \<or> r = Tip \<Longrightarrow>
   rt T \<noteq> Ref a \<Longrightarrow>
   \<exists>h'. remove_one h (Ref a) = Inr h' \<and> tree_at h' P (rem a T)
     \<and> (\<forall>b. b \<notin> set (addrs T) \<longrightarrow> h' b = h b)"
proof (induction T arbitrary: P)
  case Tip
  then show ?case by simp
next
  case (Br tl b tx tr)
  have ab: "a \<noteq> b" using Br.prems(5) by simp
  have hb: "h b = Some \<lparr>kind = BSTNode, val = tx, parent = P, left = rt tl, right = rt tr\<rparr>"
    and ttl: "tree_at h (Ref b) tl" and ttr: "tree_at h (Ref b) tr"
    using Br.prems(1) by auto
  have dl: "distinct (addrs tl)" and dr: "distinct (addrs tr)"
    and bl: "b \<notin> set (addrs tl)" and br: "b \<notin> set (addrs tr)"
    and lr: "set (addrs tl) \<inter> set (addrs tr) = {}"
    using Br.prems(2) by auto
  show ?case
  proof (cases "a \<in> set (addrs tl)")
    case True
    then have sub: "subtree a tl = Br l a x r" using Br.prems(3) ab by simp
    have "\<exists>h'. remove_one h (Ref a) = Inr h' \<and> tree_at h' (Ref b) (rem a tl)
        \<and> h' b = Some \<lparr>kind = BSTNode, val = tx, parent = P, left = rt (rem a tl), right = rt tr\<rparr>
        \<and> (\<forall>c. c \<notin> set (addrs tl) \<longrightarrow> c \<noteq> b \<longrightarrow> h' c = h c)"
    proof (cases "rt tl = Ref a")
      case rt: True
      then have tl: "tl = Br l a x r" using sub subtree_root by metis
      from remove_one_root [OF ttl [unfolded tl] Br.prems(4) hb bl [unfolded tl] dl [unfolded tl]]
      show ?thesis using rt unfolding tl by auto
    next
      case rt: False
      from Br.IH(1) [OF ttl dl sub Br.prems(4) rt]
      obtain h' where h': "remove_one h (Ref a) = Inr h'" "tree_at h' (Ref b) (rem a tl)"
        "\<forall>c. c \<notin> set (addrs tl) \<longrightarrow> h' c = h c" by blast
      then show ?thesis using hb bl rt by (auto simp: rt_rem)
    qed
    then obtain h' where h': "remove_one h (Ref a) = Inr h'" "tree_at h' (Ref b) (rem a tl)"
      "h' b = Some \<lparr>kind = BSTNode, val = tx, parent = P, left = rt (rem a tl), right = rt tr\<rparr>"
      "\<forall>c. c \<notin> set (addrs tl) \<longrightarrow> c \<noteq> b \<longrightarrow> h' c = h c" by blast
    have "tree_at h' (Ref b) tr = tree_at h (Ref b) tr"
      using h'(4) lr br by (intro tree_at_frame) auto
    then have "tree_at h' P (rem a (Br tl b tx tr))"
      using h' ttr True ab by simp
    moreover have "\<forall>c. c \<notin> set (addrs (Br tl b tx tr)) \<longrightarrow> h' c = h c"
      using h'(4) by simp
    ultimately show ?thesis using h'(1) by blast
  next
    case False
    then have sub: "subtree a tr = Br l a x r" using Br.prems(3) ab by simp
    have nl: "rt tl \<noteq> Ref a" using False rt_Ref by metis
    have "\<exists>h'. remove_one h (Ref a) = Inr h' \<and> tree_at h' (Ref b) (rem a tr)
        \<and> h' b = Some \<lparr>kind = BSTNode, val = tx, parent = P, left = rt tl, right = rt (rem a tr)\<rparr>
        \<and> (\<forall>c. c \<notin> set (addrs tr) \<longrightarrow> c \<noteq> b \<longrightarrow> h' c = h c)"
    proof (cases "rt tr = Ref a")
      case rt: True
      then have tr: "tr = Br l a x r" using sub subtree_root by metis
      from remove_one_root [OF ttr [unfolded tr] Br.prems(4) hb br [unfolded tr] dr [unfolded tr]]
      show ?thesis using rt nl unfolding tr by auto
    next
      case rt: False
      from Br.IH(2) [OF ttr dr sub Br.prems(4) rt]
      obtain h' where h': "remove_one h (Ref a) = Inr h'" "tree_at h' (Ref b) (rem a tr)"
        "\<forall>c. c \<notin> set (addrs tr) \<longrightarrow> h' c = h c" by blast
      then show ?thesis using hb br rt by (auto simp: rt_rem)
    qed
    then obtain h' where h': "remove_one h (Ref a) = Inr h'" "tree_at h' (Ref b) (rem a tr)"
      "h' b = Some \<lparr>kind = BSTNode, val = tx, parent = P, left = rt tl, right = rt (rem a tr)\<rparr>"
      "\<forall>c. c \<notin> set (addrs tr) \<longrightarrow> c \<noteq> b \<longrightarrow> h' c = h c" by blast
    have "tree_at h' (Ref b) tl = tree_at h (Ref b) tl"
      using h'(4) lr bl by (intro tree_at_frame) auto
    then have "tree_at h' P (rem a (Br tl b tx tr))"
      using h' ttl False ab by simp
    moreover have "\<forall>c. c \<notin> set (addrs (Br tl b tx tr)) \<longrightarrow> h' c = h c"
      using h'(4) by simp
    ultimately show ?thesis using h'(1) by blast
  qed
qed

subsection \<open>\<^verbatim>\<open>remove\<close>: the node with two children\<close>

lemma leftmost_in: "t \<noteq> Tip \<Longrightarrow> fst (leftmost t) \<in> set (addrs t)"
  by (induction t) auto

lemma subtree_leftmost:
  "distinct (addrs t) \<Longrightarrow> t \<noteq> Tip \<Longrightarrow>
   \<exists>mr. subtree (fst (leftmost t)) t = Br Tip (fst (leftmost t)) (snd (leftmost t)) mr"
proof (induction t)
  case Tip
  then show ?case by simp
next
  case (Br l b x r)
  show ?case
  proof (cases "l = Tip")
    case True
    then show ?thesis by simp
  next
    case False
    then have "fst (leftmost l) \<in> set (addrs l)" by (rule leftmost_in)
    then have "fst (leftmost l) \<noteq> b" using Br.prems(1) by auto
    then show ?thesis using Br False \<open>fst (leftmost l) \<in> set (addrs l)\<close> by auto
  qed
qed

lemma rem_leftmost:
  "distinct (addrs t) \<Longrightarrow> t \<noteq> Tip \<Longrightarrow> rem (fst (leftmost t)) t = del_min t"
proof (induction t)
  case Tip
  then show ?case by simp
next
  case (Br l b x r)
  show ?case
  proof (cases "l = Tip")
    case True
    then show ?thesis by simp
  next
    case False
    then have "fst (leftmost l) \<in> set (addrs l)" by (rule leftmost_in)
    then have "fst (leftmost l) \<noteq> b" using Br.prems(1) by auto
    then show ?thesis using Br False \<open>fst (leftmost l) \<in> set (addrs l)\<close> by auto
  qed
qed

lemma tree_at_subtree:
  "tree_at h P T \<Longrightarrow> subtree a T = Br l a x r \<Longrightarrow>
   \<exists>p. h a = Some \<lparr>kind = BSTNode, val = x, parent = p, left = rt l, right = rt r\<rparr>"
  by (induction T arbitrary: P) (auto split: if_splits)

lemma remove_two_root:
  assumes t: "tree_at h P (Br l a x r)" and two: "l \<noteq> Tip" "r \<noteq> Tip"
    and d: "distinct (addrs (Br l a x r))"
  shows "\<exists>h'. remove_two h (Ref a) = Some (Inr h') \<and> tree_at h' P (rem a (Br l a x r))
     \<and> (\<forall>b. b \<notin> set (addrs (Br l a x r)) \<longrightarrow> h' b = h b)"
proof -
  let ?m = "fst (leftmost r)" and ?y = "snd (leftmost r)"
  let ?aob = "\<lparr>kind = BSTNode, val = x, parent = P, left = rt l, right = rt r\<rparr>"
  have ha: "h a = Some ?aob" and tl: "tree_at h (Ref a) l" and tr: "tree_at h (Ref a) r"
    using t by auto
  have dr: "distinct (addrs r)" and al: "a \<notin> set (addrs l)" and ar: "a \<notin> set (addrs r)"
    using d by auto
  have min: "?m \<in> set (addrs r)" using two(2) by (rule leftmost_in)
  then have ma: "?m \<noteq> a" and ml: "?m \<notin> set (addrs l)" using d by auto
  obtain mr where sub: "subtree ?m r = Br Tip ?m ?y mr"
    using subtree_leftmost [OF dr two(2)] by blast
  obtain p where hm: "h ?m = Some \<lparr>kind = BSTNode, val = ?y, parent = p, left = Null, right = rt mr\<rparr>"
    using tree_at_subtree [OF tr sub] by auto
  let ?h1 = "h(a \<mapsto> ?aob\<lparr>val := ?y\<rparr>)"
  have g: "getLeftmostDescendant h (rt r) = Some (Inr (Ref ?m))"
    using tr two(2) by (rule getLeftmostDescendant_shape)
  have eq: "remove_two h (Ref a) = Some (remove_one ?h1 (Ref ?m))"
    using ha hm ma g
    by (simp add: remove_two_def remove_one_def bindE_def Let_def split: sum.split)
  have t1: "tree_at ?h1 P (Br l a ?y r)"
  proof -
    have "tree_at ?h1 (Ref a) l = tree_at h (Ref a) l"
      using al by (intro tree_at_frame) auto
    moreover have "tree_at ?h1 (Ref a) r = tree_at h (Ref a) r"
      using ar by (intro tree_at_frame) auto
    ultimately show ?thesis using tl tr by simp
  qed
  have sub1: "subtree ?m (Br l a ?y r) = Br Tip ?m ?y mr"
    using sub ma ml by simp
  have d1: "distinct (addrs (Br l a ?y r))" using d by simp
  have "rt (Br l a ?y r) \<noteq> Ref ?m" using ma by simp
  from remove_one_inner [OF t1 d1 sub1 _ this]
  obtain h' where h': "remove_one ?h1 (Ref ?m) = Inr h'" "tree_at h' P (rem ?m (Br l a ?y r))"
    "\<forall>b. b \<notin> set (addrs (Br l a ?y r)) \<longrightarrow> h' b = ?h1 b" by blast
  have "rem ?m (Br l a ?y r) = rem a (Br l a x r)"
    using ma ml two rem_leftmost [OF dr two(2)] by simp
  then have "tree_at h' P (rem a (Br l a x r))" using h'(2) by simp
  moreover have "\<forall>b. b \<notin> set (addrs (Br l a x r)) \<longrightarrow> h' b = h b"
    using h'(3) by simp
  ultimately show ?thesis using eq h'(1) by simp
qed

lemma rt_rem_two:
  "subtree a T = Br l a x r \<Longrightarrow> l \<noteq> Tip \<Longrightarrow> r \<noteq> Tip \<Longrightarrow> rt (rem a T) = rt T"
  by (cases T) (auto split: if_splits)

lemma remove_two_shape:
  "tree_at h P T \<Longrightarrow> distinct (addrs T) \<Longrightarrow> subtree a T = Br l a x r \<Longrightarrow> l \<noteq> Tip \<Longrightarrow> r \<noteq> Tip \<Longrightarrow>
   \<exists>h'. remove_two h (Ref a) = Some (Inr h') \<and> tree_at h' P (rem a T)
     \<and> (\<forall>b. b \<notin> set (addrs T) \<longrightarrow> h' b = h b)"
proof (induction T arbitrary: P)
  case Tip
  then show ?case by simp
next
  case (Br tl b tx tr)
  have hb: "h b = Some \<lparr>kind = BSTNode, val = tx, parent = P, left = rt tl, right = rt tr\<rparr>"
    and ttl: "tree_at h (Ref b) tl" and ttr: "tree_at h (Ref b) tr"
    using Br.prems(1) by auto
  have dl: "distinct (addrs tl)" and dr: "distinct (addrs tr)"
    and bl: "b \<notin> set (addrs tl)" and br: "b \<notin> set (addrs tr)"
    and lr: "set (addrs tl) \<inter> set (addrs tr) = {}"
    using Br.prems(2) by auto
  show ?case
  proof (cases "a = b")
    case True
    then have "Br tl b tx tr = Br l a x r" using Br.prems(3) by simp
    then show ?thesis
      using remove_two_root [of h P l a x r] Br.prems by simp
  next
    case ab: False
    show ?thesis
    proof (cases "a \<in> set (addrs tl)")
      case True
      then have sub: "subtree a tl = Br l a x r" using Br.prems(3) ab by simp
      from Br.IH(1) [OF ttl dl sub Br.prems(4,5)]
      obtain h' where h': "remove_two h (Ref a) = Some (Inr h')" "tree_at h' (Ref b) (rem a tl)"
        "\<forall>c. c \<notin> set (addrs tl) \<longrightarrow> h' c = h c" by blast
      have "tree_at h' (Ref b) tr = tree_at h (Ref b) tr"
        using h'(3) lr by (intro tree_at_frame) auto
      moreover have "h' b = h b" using h'(3) bl by simp
      moreover have "rt (rem a tl) = rt tl" using sub Br.prems(4,5) by (rule rt_rem_two)
      ultimately have "tree_at h' P (rem a (Br tl b tx tr))"
        using h'(2) hb ttr True ab by simp
      moreover have "\<forall>c. c \<notin> set (addrs (Br tl b tx tr)) \<longrightarrow> h' c = h c"
        using h'(3) by simp
      ultimately show ?thesis using h'(1) by blast
    next
      case False
      then have sub: "subtree a tr = Br l a x r" using Br.prems(3) ab by simp
      from Br.IH(2) [OF ttr dr sub Br.prems(4,5)]
      obtain h' where h': "remove_two h (Ref a) = Some (Inr h')" "tree_at h' (Ref b) (rem a tr)"
        "\<forall>c. c \<notin> set (addrs tr) \<longrightarrow> h' c = h c" by blast
      have "tree_at h' (Ref b) tl = tree_at h (Ref b) tl"
        using h'(3) lr by (intro tree_at_frame) auto
      moreover have "h' b = h b" using h'(3) br by simp
      moreover have "rt (rem a tr) = rt tr" using sub Br.prems(4,5) by (rule rt_rem_two)
      ultimately have "tree_at h' P (rem a (Br tl b tx tr))"
        using h'(2) hb ttl False ab by simp
      moreover have "\<forall>c. c \<notin> set (addrs (Br tl b tx tr)) \<longrightarrow> h' c = h c"
        using h'(3) by simp
      ultimately show ?thesis using h'(1) by blast
    qed
  qed
qed

subsection \<open>The methods keep the tree well-formed\<close>

lemma addrs_ins: "set (addrs (ins c v n T)) = insert n (set (addrs T))"
  by (induction T) auto

lemma distinct_ins: "distinct (addrs T) \<Longrightarrow> n \<notin> set (addrs T) \<Longrightarrow> distinct (addrs (ins c v n T))"
  by (induction T) (auto simp: addrs_ins)

lemma length_ins: "length (addrs (ins c v n T)) = Suc (length (addrs T))"
  by (induction T) auto

lemma insert_wf:
  assumes "wf s T P"
  shows "\<exists>ret s' P'. insert' s v = Some (Inr (ret, s'))
     \<and> wf s' (ins (cmp s) v (fresh s) T) P' \<and> cmp s' = cmp s \<and> fresh s' = Suc (fresh s)
     \<and> length' s' = length' s + 1 \<and> (T \<noteq> Tip \<longrightarrow> P' = P)"
proof (cases "T = Tip")
  case True
  let ?n = "fresh s"
  let ?s' = "s\<lparr>root := Ref ?n, length' := length' s + 1,
      heap := (heap s)(?n \<mapsto> new_BSTNode v Null), fresh := Suc ?n\<rparr>"
  have "insert' s v = Some (Inr (JVal (length' s + 1), ?s'))"
    using assms True
    by (subst insert'_def, subst insert_at.simps) (simp add: wf_def alloc_def pre_inc_def Let_def)
  moreover have "wf ?s' (ins (cmp s) v ?n T) Null"
    using assms True by (simp add: wf_def new_BSTNode_def root_parent_ok_def)
  ultimately show ?thesis using True by auto
next
  case False
  let ?n = "fresh s"
  have w: "root s = rt T" "tree_at (heap s) P T" "distinct (addrs T)"
    "\<forall>a\<in>set (addrs T). a < fresh s" "length' s = int (length (addrs T))" "root_parent_ok s T P"
    using assms by (auto simp: wf_def)
  have tr: "truthy (root s)" using w(1) False by (simp add: truthy_rt)
  from insert_at_shape [OF w(2) False tr w(3,4), of v]
  obtain ret H where i: "insert_at s v (rt T) =
       Some (Inr (ret, s\<lparr>length' := length' s + 1, heap := H, fresh := Suc ?n\<rparr>))"
    and t: "tree_at H P (ins (cmp s) v ?n T)"
    and fr: "\<forall>b. b \<notin> set (addrs T) \<longrightarrow> b \<noteq> ?n \<longrightarrow> H b = heap s b"
    by blast
  let ?s' = "s\<lparr>length' := length' s + 1, heap := H, fresh := Suc ?n\<rparr>"
  have nn: "?n \<notin> set (addrs T)" using w(4) by auto
  have "root_parent_ok ?s' (ins (cmp s) v ?n T) P"
    using w(6) fr False by (auto simp: root_parent_ok_def addrs_ins rt_ins)
  then have "wf ?s' (ins (cmp s) v ?n T) P"
    using w t nn False
    by (auto simp: wf_def rt_ins addrs_ins distinct_ins length_ins less_Suc_eq)
  then show ?thesis using i w(1) by (auto simp: insert'_def insert_at_default)
qed

lemma search_wf: "wf s T P \<Longrightarrow> search s v = Some (Inr (find_node (cmp s) v T))"
  unfolding wf_def search_def search_at_default by (auto intro: search_at_shape)

lemma toArray_wf: "wf s T P \<Longrightarrow> T \<noteq> Tip \<Longrightarrow> toArray s = Some (Inr (vals T))"
  unfolding wf_def toArray_def toArray_at_default by (auto intro: toArray_at_shape)

lemma find_node_subtree:
  "distinct (addrs T) \<Longrightarrow>
   find_node c v T = Null \<or> (\<exists>a l r. find_node c v T = Ref a \<and> subtree a T = Br l a v r)"
proof (induction T)
  case Tip
  then show ?case by simp
next
  case (Br tl b x tr)
  have dl: "distinct (addrs tl)" and dr: "distinct (addrs tr)"
    and bl: "b \<notin> set (addrs tl)" and br: "b \<notin> set (addrs tr)"
    and lr: "set (addrs tl) \<inter> set (addrs tr) = {}"
    using Br.prems by auto
  show ?case
  proof (cases "x = v")
    case True
    then show ?thesis by simp
  next
    case xv: False
    show ?thesis
    proof (cases "c v x")
      case True
      from Br.IH(1) [OF dl] show ?thesis
      proof
        assume "find_node c v tl = Null"
        then show ?thesis using xv True by simp
      next
        assume "\<exists>a l r. find_node c v tl = Ref a \<and> subtree a tl = Br l a v r"
        then obtain a l r where a: "find_node c v tl = Ref a" "subtree a tl = Br l a v r" by blast
        then have "a \<in> set (addrs tl)" using subtree_Br by fast
        then have "subtree a (Br tl b x tr) = Br l a v r" using a(2) bl by auto
        then show ?thesis using a(1) xv True by simp
      qed
    next
      case False
      from Br.IH(2) [OF dr] show ?thesis
      proof
        assume "find_node c v tr = Null"
        then show ?thesis using xv False by simp
      next
        assume "\<exists>a l r. find_node c v tr = Ref a \<and> subtree a tr = Br l a v r"
        then obtain a l r where a: "find_node c v tr = Ref a" "subtree a tr = Br l a v r" by blast
        then have "a \<in> set (addrs tr)" using subtree_Br by fast
        then have "subtree a (Br tl b x tr) = Br l a v r" using a(2) br lr by auto
        then show ?thesis using a(1) xv False by simp
      qed
    qed
  qed
qed

lemma addrs_Nil: "(addrs t = []) = (t = Tip)"
  by (cases t) simp_all

lemma vals_Nil: "(vals t = []) = (t = Tip)"
  by (cases t) simp_all

lemma addrs_del_min: "addrs (del_min t) = tl (addrs t)"
  by (induction t) (auto simp: addrs_Nil)

lemma vals_del_min: "vals (del_min t) = tl (vals t)"
  by (induction t) (auto simp: vals_Nil)

lemma leftmost_hd: "t \<noteq> Tip \<Longrightarrow> leftmost t = (hd (addrs t), hd (vals t))"
  by (induction t) (auto simp: addrs_Nil vals_Nil)

lemma addrs_rem_subset: "set (addrs (rem a T)) \<subseteq> set (addrs T)"
proof (induction T)
  case Tip
  then show ?case by simp
next
  case (Br l b x r)
  have "set (tl (addrs r)) \<subseteq> set (addrs r)" by (cases "addrs r") auto
  then show ?case using Br by (auto simp: addrs_del_min)
qed

lemma distinct_rem: "distinct (addrs T) \<Longrightarrow> distinct (addrs (rem a T))"
proof (induction T)
  case Tip
  then show ?case by simp
next
  case (Br l b x r)
  have "set (tl (addrs r)) \<subseteq> set (addrs r)" by (cases "addrs r") auto
  moreover have "distinct (tl (addrs r))" using Br.prems by (simp add: distinct_tl)
  ultimately show ?case
    using Br addrs_rem_subset [of a l] addrs_rem_subset [of a r]
    by (auto simp: addrs_del_min)
qed

lemma length_rem:
  "a \<in> set (addrs T) \<Longrightarrow> distinct (addrs T) \<Longrightarrow> Suc (length (addrs (rem a T))) = length (addrs T)"
proof (induction T)
  case Tip
  then show ?case by simp
next
  case (Br l b x r)
  then show ?case by (auto simp: addrs_del_min addrs_Nil)
qed

lemma remove_missing_wf:
  "wf s T P \<Longrightarrow> find_node (cmp s) v T = Null \<Longrightarrow> remove' s v = Some (Inr (JNull, s))"
  by (simp add: remove'_def search_wf)

lemma remove_root_wf:
  assumes w: "wf s T P" and f: "find_node (cmp s) v T = Ref a" and rt: "rt T = Ref a"
  shows "\<exists>s'. remove' s v = Some (Inr (JVal (length' s - 1), s'))
     \<and> wf s' (rem a T) (Ref (fresh s)) \<and> cmp s' = cmp s \<and> fresh s' = Suc (fresh s)
     \<and> length' s' = length' s - 1"
proof -
  let ?b = "fresh s"
  have w': "root s = rt T" "tree_at (heap s) P T" "distinct (addrs T)"
    "\<forall>a\<in>set (addrs T). a < fresh s" "length' s = int (length (addrs T))"
    using w by (auto simp: wf_def)
  obtain l x r where T: "T = Br l a x r" using rt by (cases T) auto
  let ?aob = "\<lparr>kind = BSTNode, val = x, parent = P, left = rt l, right = rt r\<rparr>"
  have ha: "heap s a = Some ?aob" using w'(2) T by simp
  have ain: "a \<in> set (addrs T)" using T by simp
  have ba: "?b \<noteq> a" and bT: "?b \<notin> set (addrs T)" using w'(4) ain by auto
  let ?h0 = "(heap s)(?b \<mapsto> plain_left (Ref a))"
  let ?h1 = "?h0(a \<mapsto> \<lparr>kind = BSTNode, val = x, parent = Ref ?b, left = rt l, right = rt r\<rparr>)"
  let ?s1 = "s\<lparr>heap := ?h1, fresh := Suc ?b\<rparr>"
  have rp: "remove_rootParent s (Ref a) = Inr (Ref ?b, ?s1)"
    using w'(1) rt ha ba by (simp add: remove_rootParent_def alloc_def bindE_def)
  have "tree_at ?h0 P T = tree_at (heap s) P T"
    using bT by (intro tree_at_frame) auto
  then have t0: "tree_at ?h0 P (Br l a x r)" using w'(2) T by simp
  have al: "a \<notin> set (addrs l)" "a \<notin> set (addrs r)" using w'(3) T by auto
  have t1: "tree_at ?h1 (Ref ?b) (Br l a x r)"
    using t0 al by (rule tree_at_reparent)
  have hb: "?h1 ?b = Some (plain_left (Ref a))" using ba by simp
  have d: "distinct (addrs (Br l a x r))" using w'(3) T by simp
  have bn: "?b \<notin> set (addrs (Br l a x r))" using bT T by simp
  have "\<exists>h2. (if truthy (rt l) \<and> truthy (rt r) then remove_two ?h1 (Ref a)
               else Some (remove_one ?h1 (Ref a))) = Some (Inr h2)
      \<and> tree_at h2 (Ref ?b) (rem a T) \<and> h2 ?b = Some (plain_left (rt (rem a T)))"
  proof (cases "l \<noteq> Tip \<and> r \<noteq> Tip")
    case True
    then have two: "l \<noteq> Tip" "r \<noteq> Tip" by auto
    from remove_two_root [OF t1 two d]
    obtain h2 where h2: "remove_two ?h1 (Ref a) = Some (Inr h2)"
      "tree_at h2 (Ref ?b) (rem a (Br l a x r))"
      "\<forall>c. c \<notin> set (addrs (Br l a x r)) \<longrightarrow> h2 c = ?h1 c" by blast
    have "h2 ?b = Some (plain_left (Ref a))" using h2(3) bn hb by metis
    then show ?thesis using h2(1,2) two T by (auto simp: truthy_rt)
  next
    case False
    then have one: "l = Tip \<or> r = Tip" by auto
    from remove_one_root [OF t1 one hb bn d]
    obtain h2 where h2: "remove_one ?h1 (Ref a) = Inr h2"
      "tree_at h2 (Ref ?b) (rem a (Br l a x r))"
      "h2 ?b = Some (set_side (if left (plain_left (Ref a) :: 'a obj) = Ref a then SLeft else SRight)
           (rt (rem a (Br l a x r))) (plain_left (Ref a)))" by blast
    have "h2 ?b = Some (plain_left (rt (rem a T)))"
      using h2(3) T by (simp add: plain_left_def)
    then show ?thesis using h2(1,2) one T by (auto simp: truthy_rt)
  qed
  then obtain h2 where h2: "(if truthy (rt l) \<and> truthy (rt r) then remove_two ?h1 (Ref a)
               else Some (remove_one ?h1 (Ref a))) = Some (Inr h2)"
      "tree_at h2 (Ref ?b) (rem a T)" "h2 ?b = Some (plain_left (rt (rem a T)))" by blast
  let ?s' = "s\<lparr>root := rt (rem a T), length' := length' s - 1, heap := h2, fresh := Suc ?b\<rparr>"
  have fin: "remove_finish (?s1\<lparr>heap := h2\<rparr>) (Ref ?b) = Inr (JVal (length' s - 1), ?s')"
    using h2(3) by (simp add: remove_finish_def bindE_def pre_dec_def plain_left_def)
  have "remove' s v = Some (Inr (JVal (length' s - 1), ?s'))"
    unfolding remove'_def search_wf [OF w] f
    using rp ba h2(1) fin by (auto split: if_splits)
  moreover have "wf ?s' (rem a T) (Ref ?b)"
    using h2(2,3) w' distinct_rem [OF w'(3), of a] addrs_rem_subset [of a T] length_rem [OF ain w'(3)] bT
    by (auto simp: wf_def root_parent_ok_def less_Suc_eq)
  ultimately show ?thesis by auto
qed

lemma remove_inner_wf:
  assumes w: "wf s T P" and f: "find_node (cmp s) v T = Ref a" and rt: "rt T \<noteq> Ref a"
  shows "\<exists>s'. remove' s v = Some (Inr (JVal (length' s - 1), s'))
     \<and> wf s' (rem a T) P \<and> cmp s' = cmp s \<and> fresh s' = fresh s
     \<and> length' s' = length' s - 1"
proof -
  have w': "root s = rt T" "tree_at (heap s) P T" "distinct (addrs T)"
    "\<forall>a\<in>set (addrs T). a < fresh s" "length' s = int (length (addrs T))"
    "root_parent_ok s T P"
    using w by (auto simp: wf_def)
  from find_node_subtree [OF w'(3), of "cmp s" v] f
  obtain l r where sub: "subtree a T = Br l a v r" by auto
  then have ain: "a \<in> set (addrs T)" using subtree_Br by fast
  obtain p where ha: "heap s a = Some \<lparr>kind = BSTNode, val = v, parent = p, left = rt l, right = rt r\<rparr>"
    using tree_at_subtree [OF w'(2) sub] by blast
  have rp: "remove_rootParent s (Ref a) = Inr (Undef, s)"
    using w'(1) rt by (simp add: remove_rootParent_def)
  have "\<exists>h2. (if truthy (rt l) \<and> truthy (rt r) then remove_two (heap s) (Ref a)
               else Some (remove_one (heap s) (Ref a))) = Some (Inr h2)
      \<and> tree_at h2 P (rem a T) \<and> (\<forall>c. c \<notin> set (addrs T) \<longrightarrow> h2 c = heap s c)"
  proof (cases "l \<noteq> Tip \<and> r \<noteq> Tip")
    case True
    then have two: "l \<noteq> Tip" "r \<noteq> Tip" by auto
    from remove_two_shape [OF w'(2,3) sub two]
    show ?thesis using two by (auto simp: truthy_rt)
  next
    case False
    then have one: "l = Tip \<or> r = Tip" by auto
    from remove_one_inner [OF w'(2,3) sub one rt]
    show ?thesis using one by (auto simp: truthy_rt)
  qed
  then obtain h2 where h2: "(if truthy (rt l) \<and> truthy (rt r) then remove_two (heap s) (Ref a)
               else Some (remove_one (heap s) (Ref a))) = Some (Inr h2)"
      "tree_at h2 P (rem a T)" "\<forall>c. c \<notin> set (addrs T) \<longrightarrow> h2 c = heap s c" by blast
  let ?s' = "s\<lparr>length' := length' s - 1, heap := h2\<rparr>"
  have "remove' s v = Some (Inr (JVal (length' s - 1), ?s'))"
    unfolding remove'_def search_wf [OF w] f
    using rp ha h2(1) by (auto simp: remove_finish_def pre_dec_def split: if_splits)
  moreover have "root_parent_ok ?s' (rem a T) P"
    using w'(6) h2(3) addrs_rem_subset [of a T] rt by (auto simp: root_parent_ok_def rt_rem)
  then have "wf ?s' (rem a T) P"
    using h2(2) w' distinct_rem [OF w'(3), of a] addrs_rem_subset [of a T] length_rem [OF ain w'(3)] rt
    by (auto simp: wf_def rt_rem)
  ultimately show ?thesis by auto
qed

subsection \<open>The reachable nodes, and every sequence of calls\<close>

lemma reach_sound:
  "reach h r a \<Longrightarrow> tree_at h P T \<Longrightarrow> r = rt T \<Longrightarrow> a \<in> set (addrs T)"
proof (induction arbitrary: P T rule: reach.induct)
  case (reach_here a)
  then show ?case by (cases T) auto
next
  case (reach_left a ob b)
  then show ?case by (cases T) auto
next
  case (reach_right a ob b)
  then show ?case by (cases T) auto
qed

lemma reach_complete:
  "tree_at h P T \<Longrightarrow> a \<in> set (addrs T) \<Longrightarrow> reach h (rt T) a"
proof (induction T arbitrary: P)
  case Tip
  then show ?case by simp
next
  case (Br l b x r)
  let ?ob = "\<lparr>kind = BSTNode, val = x, parent = P, left = rt l, right = rt r\<rparr>"
  have hb: "h b = Some ?ob" using Br.prems(1) by simp
  consider "a = b" | "a \<in> set (addrs l)" | "a \<in> set (addrs r)" using Br.prems(2) by auto
  then show ?case
  proof cases
    case 1
    then show ?thesis by (simp add: reach_here)
  next
    case 2
    then have "reach h (left ?ob) a" using Br by auto
    with hb show ?thesis unfolding rt.simps by (rule reach_left)
  next
    case 3
    then have "reach h (right ?ob) a" using Br by auto
    with hb show ?thesis unfolding rt.simps by (rule reach_right)
  qed
qed

lemma reach_addrs: "tree_at h P T \<Longrightarrow> {a. reach h (rt T) a} = set (addrs T)"
  using reach_sound reach_complete by blast

lemma wf_card: "wf s T P \<Longrightarrow> length' s = int (card {a. reach (heap s) (root s) a})"
  unfolding wf_def using reach_addrs [of "heap s" P T] by (simp add: distinct_card)

lemma find_node_not_Undef: "find_node c v T \<noteq> Undef"
  by (induction T) auto

lemma exec_wf:
  assumes "wf s T P"
  shows "\<exists>ret s' P'. exec s x = Some (Inr (ret, s'))
     \<and> wf s' (fst (astep (cmp s) x (T, fresh s))) P' \<and> cmp s' = cmp s
     \<and> fresh s' = snd (astep (cmp s) x (T, fresh s))
     \<and> (\<forall>v. x = Remove v \<longrightarrow> (ret = JNull) = (find_node (cmp s) v T = Null))"
proof (cases x)
  case (Insert v)
  then show ?thesis using insert_wf [OF assms, of v] by auto
next
  case (Remove v)
  show ?thesis
  proof (cases "find_node (cmp s) v T")
    case Null
    then show ?thesis
      using remove_missing_wf [OF assms Null] assms Remove by (auto simp: remv_def)
  next
    case Undef
    then show ?thesis using find_node_not_Undef by metis
  next
    case (Ref a)
    show ?thesis
    proof (cases "rt T = Ref a")
      case True
      then show ?thesis
        using remove_root_wf [OF assms Ref True] Ref Remove by (auto simp: remv_def)
    next
      case False
      then show ?thesis
        using remove_inner_wf [OF assms Ref False] Ref Remove by (auto simp: remv_def)
    qed
  qed
qed

lemma exec_count:
  assumes "wf s T P" "exec s x = Some (Inr (ret, s'))"
  shows "length' s' = length' s + int (inserted [x]) - int (removed [x] [ret])"
proof (cases x)
  case (Insert v)
  then show ?thesis
    using insert_wf [OF assms(1), of v] assms by auto
next
  case (Remove v)
  show ?thesis
  proof (cases "find_node (cmp s) v T")
    case Null
    then show ?thesis
      using remove_missing_wf [OF assms(1) Null] assms Remove by auto
  next
    case Undef
    then show ?thesis using find_node_not_Undef by metis
  next
    case (Ref a)
    show ?thesis
    proof (cases "rt T = Ref a")
      case True
      then show ?thesis
        using remove_root_wf [OF assms(1) Ref True] assms Ref Remove by auto
    next
      case False
      then show ?thesis
        using remove_inner_wf [OF assms(1) Ref False] assms Ref Remove by auto
    qed
  qed
qed

lemma run_wf:
  "wf s T P \<Longrightarrow>
   \<exists>rets s' P'. run s xs = Some (Inr (rets, s'))
     \<and> wf s' (fst (arun (cmp s) xs (T, fresh s))) P' \<and> cmp s' = cmp s
     \<and> length' s' = length' s + int (inserted xs) - int (removed xs rets)"
proof (induction xs arbitrary: s T P)
  case Nil
  then show ?case by auto
next
  case (Cons x xs)
  from exec_wf [OF Cons.prems, of x]
  obtain ret s1 P1 where e: "exec s x = Some (Inr (ret, s1))"
    "wf s1 (fst (astep (cmp s) x (T, fresh s))) P1" "cmp s1 = cmp s"
    "fresh s1 = snd (astep (cmp s) x (T, fresh s))" by blast
  from Cons.IH [OF e(2)]
  obtain rets s' P' where r: "run s1 xs = Some (Inr (rets, s'))"
    "wf s' (fst (arun (cmp s1) xs (fst (astep (cmp s) x (T, fresh s)), fresh s1))) P'"
    "cmp s' = cmp s1" "length' s' = length' s1 + int (inserted xs) - int (removed xs rets)"
    by blast
  have c: "length' s1 = length' s + int (inserted [x]) - int (removed [x] [ret])"
    using Cons.prems e(1) by (rule exec_count)
  have "run s (x # xs) = Some (Inr (ret # rets, s'))" using e(1) r(1) by simp
  moreover have "wf s' (fst (arun (cmp s) (x # xs) (T, fresh s))) P'"
    using r(2) e(3,4) by simp
  moreover have "length' s' = length' s + int (inserted (x # xs)) - int (removed (x # xs) (ret # rets))"
    using r(4) c by (cases x) auto
  ultimately show ?case using r(3) e(3) by auto
qed

lemma wf_empty: "wf (empty_tree c) Tip Null"
  by (simp add: wf_def empty_tree_def root_parent_ok_def)

subsection \<open>Search trees stay search trees, and their in-order sequence is ascending\<close>

lemma ascending_append:
  "ascending c (xs @ ys) =
     (ascending c xs \<and> ascending c ys \<and> (\<forall>x\<in>set xs. \<forall>y\<in>set ys. \<not> c y x))"
  by (induction xs) auto

lemma bst_ascending:
  assumes o: "strict_total_on A c"
  shows "search_tree c T \<Longrightarrow> set (vals T) \<subseteq> A \<Longrightarrow> ascending c (vals T)"
proof (induction T)
  case Tip
  then show ?case by simp
next
  case (Br l a x r)
  have irr: "\<And>u. u \<in> A \<Longrightarrow> \<not> c u u"
    and tr: "\<And>u v w. u \<in> A \<Longrightarrow> v \<in> A \<Longrightarrow> w \<in> A \<Longrightarrow> c u v \<Longrightarrow> c v w \<Longrightarrow> c u w"
    using o unfolding strict_total_on_def by blast+
  have xA: "x \<in> A" and lA: "set (vals l) \<subseteq> A" and rA: "set (vals r) \<subseteq> A"
    using Br.prems(2) by auto
  have 1: "\<forall>y\<in>set (vals l). \<not> c x y"
    using Br.prems(1) irr tr xA lA by (metis search_tree.simps(2) subsetD)
  have 2: "\<forall>y\<in>set (vals l). \<forall>z\<in>set (vals r). \<not> c z y"
    using Br.prems(1) tr xA lA rA by (metis search_tree.simps(2) subsetD)
  show ?case
    using Br.IH Br.prems(1) lA rA 1 2 by (auto simp: ascending_append)
qed

lemma vals_ins: "mset (vals (ins c v n T)) = add_mset v (mset (vals T))"
  by (induction T) auto

lemma set_vals_ins: "set (vals (ins c v n T)) = insert v (set (vals T))"
  by (induction T) auto

lemma bst_ins: "search_tree c T \<Longrightarrow> search_tree c (ins c v n T)"
  by (induction T) (auto simp: set_vals_ins)

lemma leftmost_val: "t \<noteq> Tip \<Longrightarrow> snd (leftmost t) = hd (vals t)"
  by (simp add: leftmost_hd)

lemma vals_rem_two:
  "r \<noteq> Tip \<Longrightarrow> vals l @ snd (leftmost r) # vals (del_min r) = vals l @ vals r"
  by (simp add: leftmost_val vals_del_min vals_Nil)

lemma mset_vals_rem:
  "distinct (addrs T) \<Longrightarrow> subtree a T = Br l a v r \<Longrightarrow>
   mset (vals (rem a T)) = mset (vals T) - {#v#}"
proof (induction T)
  case Tip
  then show ?case by simp
next
  case (Br tl b x tr)
  show ?case
  proof (cases "a = b")
    case True
    then have "x = v" using Br.prems(2) by simp
    then show ?thesis using True by (auto simp: vals_rem_two vals_Nil)
  next
    case ab: False
    show ?thesis
    proof (cases "a \<in> set (addrs tl)")
      case True
      then have sub: "subtree a tl = Br l a v r" using Br.prems(2) ab by simp
      have "v \<in> set (vals tl)"
        using sub by (induction tl) (auto split: if_splits)
      then show ?thesis using Br sub True ab by auto
    next
      case False
      then have sub: "subtree a tr = Br l a v r" using Br.prems(2) ab by simp
      have "v \<in> set (vals tr)"
        using sub by (induction tr) (auto split: if_splits)
      then show ?thesis using Br sub False ab by auto
    qed
  qed
qed

lemma set_vals_rem: "set (vals (rem a T)) \<subseteq> set (vals T)"
proof (induction T)
  case Tip
  then show ?case by simp
next
  case (Br l b x r)
  have "r \<noteq> Tip \<Longrightarrow> set (snd (leftmost r) # vals (del_min r)) = set (vals r)"
    by (simp add: leftmost_val vals_del_min vals_Nil)
  then show ?case using Br by auto
qed

lemma bst_del_min: "search_tree c t \<Longrightarrow> search_tree c (del_min t)"
proof (induction t)
  case Tip
  then show ?case by simp
next
  case (Br l a x r)
  have "set (vals (del_min l)) \<subseteq> set (vals l)"
    by (cases "vals l") (auto simp: vals_del_min)
  then show ?case using Br by auto
qed

lemma bst_rem:
  assumes o: "strict_total_on A c"
  shows "search_tree c T \<Longrightarrow> set (vals T) \<subseteq> A \<Longrightarrow> search_tree c (rem a T)"
proof (induction T)
  case Tip
  then show ?case by simp
next
  case (Br l b x r)
  have tr: "\<And>u v w. u \<in> A \<Longrightarrow> v \<in> A \<Longrightarrow> w \<in> A \<Longrightarrow> c u v \<Longrightarrow> c v w \<Longrightarrow> c u w"
    and tot: "\<And>u v. u \<in> A \<Longrightarrow> v \<in> A \<Longrightarrow> u \<noteq> v \<Longrightarrow> c u v \<or> c v u"
    using o unfolding strict_total_on_def by blast+
  have xA: "x \<in> A" and lA: "set (vals l) \<subseteq> A" and rA: "set (vals r) \<subseteq> A"
    using Br.prems(2) by auto
  have bl: "search_tree c l" and br: "search_tree c r" and lx: "\<forall>y\<in>set (vals l). c y x"
    and rx: "\<forall>y\<in>set (vals r). \<not> c y x"
    using Br.prems(1) by auto
  show ?case
  proof (cases "a = b")
    case True
    show ?thesis
    proof (cases "l \<noteq> Tip \<and> r \<noteq> Tip")
      case two: True
      let ?y = "snd (leftmost r)"
      have yr: "vals r = ?y # vals (del_min r)"
        using two by (simp add: leftmost_val vals_del_min vals_Nil)
      then have yin: "?y \<in> set (vals r)" by (metis list.set_intros(1))
      then have yA: "?y \<in> A" and nyx: "\<not> c ?y x" using rA rx by auto
      have "ascending c (vals r)" using o br rA by (rule bst_ascending)
      then have 1: "\<forall>z\<in>set (vals (del_min r)). \<not> c z ?y" using yr by (metis ascending.simps(2))
      have 2: "\<forall>z\<in>set (vals l). c z ?y"
      proof
        fix z assume z: "z \<in> set (vals l)"
        then have zx: "c z x" and zA: "z \<in> A" using lx lA by auto
        show "c z ?y"
        proof (cases "?y = x")
          case True
          then show ?thesis using zx by simp
        next
          case False
          then have "c x ?y" using tot [OF yA xA] nyx by blast
          then show ?thesis using tr [OF zA xA yA zx] by blast
        qed
      qed
      show ?thesis using True two bl br 1 2 by (simp add: bst_del_min)
    next
      case False
      then show ?thesis using True bl br by auto
    qed
  next
    case False
    then show ?thesis
      using Br.IH bl br lx rx lA rA set_vals_rem [of a l] set_vals_rem [of a r] by auto
  qed
qed

lemma find_node_complete:
  "search_tree c T \<Longrightarrow> v \<in> set (vals T) \<Longrightarrow> find_node c v T \<noteq> Null"
  by (induction T) auto

lemma find_node_absent: "v \<notin> set (vals T) \<Longrightarrow> find_node c v T = Null"
  by (induction T) auto

lemma mset_vals_remv:
  assumes "distinct (addrs T)" "search_tree c T"
  shows "mset (vals (remv c v T)) = mset (remove1 v (vals T))"
proof (cases "v \<in> set (vals T)")
  case True
  then have "find_node c v T \<noteq> Null" using assms(2) find_node_complete by fast
  then obtain a l r where a: "find_node c v T = Ref a" "subtree a T = Br l a v r"
    using find_node_subtree [OF assms(1), of c v] by auto
  then show ?thesis using mset_vals_rem [OF assms(1) a(2)] by (simp add: remv_def)
next
  case False
  then show ?thesis using find_node_absent [of v T c] by (simp add: remv_def remove1_idem)
qed

lemma bst_remv:
  "strict_total_on A c \<Longrightarrow> search_tree c T \<Longrightarrow> set (vals T) \<subseteq> A \<Longrightarrow> search_tree c (remv c v T)"
  by (auto simp: remv_def bst_rem split: ref.splits)

lemma set_vals_remv: "set (vals (remv c v T)) \<subseteq> set (vals T)"
  using set_vals_rem by (auto simp: remv_def split: ref.splits)

lemma addrs_remv: "set (addrs (remv c v T)) \<subseteq> set (addrs T)"
  using addrs_rem_subset by (auto simp: remv_def split: ref.splits)

lemma distinct_remv: "distinct (addrs T) \<Longrightarrow> distinct (addrs (remv c v T))"
  by (auto simp: remv_def distinct_rem split: ref.splits)

lemma stored_mset_cong:
  "mset acc = mset acc' \<Longrightarrow> mset (stored acc xs) = mset (stored acc' xs)"
proof (induction xs arbitrary: acc acc')
  case Nil
  then show ?case by simp
next
  case (Cons x xs)
  show ?case
  proof (cases x)
    case (Insert v)
    have "mset (v # acc) = mset (v # acc')" using Cons.prems by simp
    then show ?thesis using Cons.IH Insert by simp
  next
    case (Remove v)
    have "mset (remove1 v acc) = mset (remove1 v acc')" using Cons.prems by simp
    then show ?thesis using Cons.IH Remove by simp
  qed
qed

lemma arun_bst:
  assumes o: "strict_total_on A c"
  shows "inserts_in A xs \<Longrightarrow> search_tree c T \<Longrightarrow> set (vals T) \<subseteq> A \<Longrightarrow> distinct (addrs T) \<Longrightarrow>
     \<forall>a\<in>set (addrs T). a < n \<Longrightarrow>
     search_tree c (fst (arun c xs (T, n))) \<and> set (vals (fst (arun c xs (T, n)))) \<subseteq> A
     \<and> mset (vals (fst (arun c xs (T, n)))) = mset (stored (vals T) xs)"
proof (induction xs arbitrary: T n)
  case Nil
  then show ?case by simp
next
  case (Cons x xs)
  show ?case
  proof (cases x)
    case (Insert v)
    let ?T = "ins c v n T"
    have n: "n \<notin> set (addrs T)" using Cons.prems(5) by auto
    have 1: "inserts_in A xs" and vA: "v \<in> A" using Cons.prems(1) Insert by auto
    have 2: "search_tree c ?T" using Cons.prems(2) by (rule bst_ins)
    have 3: "set (vals ?T) \<subseteq> A" using Cons.prems(3) vA by (simp add: set_vals_ins)
    have 4: "distinct (addrs ?T)" using Cons.prems(4) n by (rule distinct_ins)
    have 5: "\<forall>a\<in>set (addrs ?T). a < Suc n" using Cons.prems(5) by (auto simp: addrs_ins)
    have "mset (stored (vals ?T) xs) = mset (stored (v # vals T) xs)"
      by (rule stored_mset_cong) (simp add: vals_ins)
    then show ?thesis using Cons.IH [OF 1 2 3 4 5] Insert by simp
  next
    case (Remove v)
    let ?T = "remv c v T"
    let ?n = "if find_node c v T \<noteq> Null \<and> find_node c v T = rt T then Suc n else n"
    have 1: "inserts_in A xs" using Cons.prems(1) Remove by auto
    have 2: "search_tree c ?T" using o Cons.prems(2,3) by (rule bst_remv)
    have 3: "set (vals ?T) \<subseteq> A" using Cons.prems(3) set_vals_remv [of c v T] by auto
    have 4: "distinct (addrs ?T)" using Cons.prems(4) by (rule distinct_remv)
    have 5: "\<forall>a\<in>set (addrs ?T). a < ?n"
      using Cons.prems(5) addrs_remv [of c v T] by (auto simp: less_Suc_eq dest: subsetD)
    have "mset (stored (vals ?T) xs) = mset (stored (remove1 v (vals T)) xs)"
      using Cons.prems(2,4) by (intro stored_mset_cong mset_vals_remv)
    then show ?thesis using Cons.IH [OF 1 2 3 4 5] Remove by simp
  qed
qed

lemma sorted_after_run:
  assumes o: "strict_total_on A c" and i: "inserts_in A xs"
  shows "\<exists>rets s. run (empty_tree c) xs = Some (Inr (rets, s))
     \<and> (if root s = Null then toArray s = Some (Inl TypeError) \<and> stored [] xs = []
         else \<exists>arr. toArray s = Some (Inr arr) \<and> ascending c arr \<and> mset arr = mset (stored [] xs))"
proof -
  let ?T = "fst (arun c xs (Tip, 0))"
  from run_wf [OF wf_empty, of c xs]
  obtain rets s P where r: "run (empty_tree c) xs = Some (Inr (rets, s))" "wf s ?T P"
    by (auto simp: empty_tree_def)
  from arun_bst [OF o i, of Tip 0]
  have b: "search_tree c ?T" "set (vals ?T) \<subseteq> A" "mset (vals ?T) = mset (stored [] xs)" by auto
  have root: "root s = rt ?T" using r(2) by (simp add: wf_def)
  show ?thesis
  proof (cases "?T = Tip")
    case True
    then have "root s = Null" using root by simp
    moreover have "toArray s = Some (Inl TypeError)"
      using \<open>root s = Null\<close> by (subst toArray_def, subst toArray_at.simps) (simp add: Let_def)
    moreover have "stored [] xs = []" using b(3) True by simp
    ultimately show ?thesis using r(1) by auto
  next
    case False
    then have "root s \<noteq> Null" using root by (simp add: rt_Null)
    moreover have "toArray s = Some (Inr (vals ?T))" using r(2) False by (rule toArray_wf)
    moreover have "ascending c (vals ?T)" using o b(1,2) by (rule bst_ascending)
    ultimately show ?thesis using r(1) b(3) by auto
  qed
qed

subsection \<open>The upward walks of \<^verbatim>\<open>getPredecessor\<close> and \<^verbatim>\<open>getSuccessor\<close>\<close>

lemma loop_pred_step:
  assumes "tree_at h (Ref b) l" "l \<noteq> Tip" "h b = Some pob" "left pob = rt l"
  shows "getPredecessor_loop h (rt l) = getPredecessor_loop h (Ref b)"
proof -
  obtain ll la lx lr where l: "l = Br ll la lx lr" using assms(2) by (cases l) auto
  show ?thesis
    unfolding l rt.simps
    using assms unfolding l
    by (subst getPredecessor_loop.simps) simp
qed

lemma loop_pred_stop:
  assumes "tree_at h (Ref b) r" "r \<noteq> Tip" "h b = Some pob" "left pob \<noteq> rt r"
  shows "getPredecessor_loop h (rt r) = Some (Inr (rt r))
     \<and> parent_value h (rt r) = Inr (val pob)"
proof -
  obtain rl ra rx rr where r: "r = Br rl ra rx rr" using assms(2) by (cases r) auto
  show ?thesis
    unfolding r rt.simps
    using assms unfolding r
    by (subst getPredecessor_loop.simps) (simp add: parent_value_def bindE_def)
qed

lemma getPredecessor_loop_shape:
  "tree_at h P T \<Longrightarrow> distinct (addrs T) \<Longrightarrow> a \<in> set (addrs T) \<Longrightarrow>
   (case up_pred a T of
      None \<Rightarrow> getPredecessor_loop h (Ref a) = getPredecessor_loop h (rt T)
    | Some y \<Rightarrow> \<exists>b. getPredecessor_loop h (Ref a) = Some (Inr (Ref b))
                  \<and> parent_value h (Ref b) = Inr y)"
proof (induction T arbitrary: P)
  case Tip
  then show ?case by simp
next
  case (Br l b x r)
  let ?ob = "\<lparr>kind = BSTNode, val = x, parent = P, left = rt l, right = rt r\<rparr>"
  have hb: "h b = Some ?ob" and tl: "tree_at h (Ref b) l" and tr: "tree_at h (Ref b) r"
    using Br.prems(1) by auto
  have dl: "distinct (addrs l)" and dr: "distinct (addrs r)"
    and bl: "b \<notin> set (addrs l)" and br: "b \<notin> set (addrs r)"
    and lr: "set (addrs l) \<inter> set (addrs r) = {}"
    using Br.prems(2) by auto
  consider "a = b" | "a \<noteq> b" "a \<in> set (addrs l)" | "a \<noteq> b" "a \<notin> set (addrs l)" "a \<in> set (addrs r)"
    using Br.prems(3) by auto
  then show ?case
  proof cases
    case 1
    then show ?thesis by simp
  next
    case 2
    then have lT: "l \<noteq> Tip" by auto
    have step: "getPredecessor_loop h (rt l) = getPredecessor_loop h (Ref b)"
      using tl lT hb by (rule loop_pred_step) simp
    from Br.IH(1) [OF tl dl 2(2)] show ?thesis
      using 2 step by (auto split: option.splits)
  next
    case 3
    then have rT: "r \<noteq> Tip" by auto
    have "rt l \<noteq> rt r"
      using rT lr by (cases l; cases r) auto
    then have "left ?ob \<noteq> rt r" by simp
    from loop_pred_stop [OF tr rT hb this]
    have stop: "getPredecessor_loop h (rt r) = Some (Inr (rt r))" "parent_value h (rt r) = Inr x"
      by auto
    obtain ra where ra: "rt r = Ref ra" using rT by (cases r) auto
    from Br.IH(2) [OF tr dr 3(3)] show ?thesis
      using 3 stop ra by (auto split: option.splits)
  qed
qed

lemma loop_succ_step:
  assumes "tree_at h (Ref b) r" "r \<noteq> Tip" "h b = Some pob" "right pob = rt r"
  shows "getSuccessor_loop h (rt r) = getSuccessor_loop h (Ref b)"
proof -
  obtain rl ra rx rr where r: "r = Br rl ra rx rr" using assms(2) by (cases r) auto
  show ?thesis
    unfolding r rt.simps
    using assms unfolding r
    by (subst getSuccessor_loop.simps) simp
qed

lemma loop_succ_stop:
  assumes "tree_at h (Ref b) l" "l \<noteq> Tip" "h b = Some pob" "right pob \<noteq> rt l"
  shows "getSuccessor_loop h (rt l) = Some (Inr (rt l))
     \<and> parent_value h (rt l) = Inr (val pob)"
proof -
  obtain ll la lx lr where l: "l = Br ll la lx lr" using assms(2) by (cases l) auto
  show ?thesis
    unfolding l rt.simps
    using assms unfolding l
    by (subst getSuccessor_loop.simps) (simp add: parent_value_def bindE_def)
qed

lemma getSuccessor_loop_shape:
  "tree_at h P T \<Longrightarrow> distinct (addrs T) \<Longrightarrow> a \<in> set (addrs T) \<Longrightarrow>
   (case up_succ a T of
      None \<Rightarrow> getSuccessor_loop h (Ref a) = getSuccessor_loop h (rt T)
    | Some y \<Rightarrow> \<exists>b. getSuccessor_loop h (Ref a) = Some (Inr (Ref b))
                  \<and> parent_value h (Ref b) = Inr y)"
proof (induction T arbitrary: P)
  case Tip
  then show ?case by simp
next
  case (Br l b x r)
  let ?ob = "\<lparr>kind = BSTNode, val = x, parent = P, left = rt l, right = rt r\<rparr>"
  have hb: "h b = Some ?ob" and tl: "tree_at h (Ref b) l" and tr: "tree_at h (Ref b) r"
    using Br.prems(1) by auto
  have dl: "distinct (addrs l)" and dr: "distinct (addrs r)"
    and bl: "b \<notin> set (addrs l)" and br: "b \<notin> set (addrs r)"
    and lr: "set (addrs l) \<inter> set (addrs r) = {}"
    using Br.prems(2) by auto
  consider "a = b" | "a \<noteq> b" "a \<in> set (addrs l)" | "a \<noteq> b" "a \<notin> set (addrs l)" "a \<in> set (addrs r)"
    using Br.prems(3) by auto
  then show ?case
  proof cases
    case 1
    then show ?thesis by simp
  next
    case 2
    then have lT: "l \<noteq> Tip" by auto
    have "rt r \<noteq> rt l"
      using lT lr by (cases l; cases r) auto
    then have "right ?ob \<noteq> rt l" by simp
    from loop_succ_stop [OF tl lT hb this]
    have stop: "getSuccessor_loop h (rt l) = Some (Inr (rt l))" "parent_value h (rt l) = Inr x"
      by auto
    obtain la where la: "rt l = Ref la" using lT by (cases l) auto
    from Br.IH(1) [OF tl dl 2(2)] show ?thesis
      using 2 stop la by (auto split: option.splits)
  next
    case 3
    then have rT: "r \<noteq> Tip" by auto
    have step: "getSuccessor_loop h (rt r) = getSuccessor_loop h (Ref b)"
      using tr rT hb by (rule loop_succ_step) simp
    from Br.IH(2) [OF tr dr 3(3)] show ?thesis
      using 3 step by (auto split: option.splits)
  qed
qed

lemma tree_at_subtree_full:
  "tree_at h P T \<Longrightarrow> subtree a T = Br l a x r \<Longrightarrow> \<exists>p. tree_at h p (Br l a x r)"
proof (induction T arbitrary: P)
  case Tip
  then show ?case by simp
next
  case (Br tl b tx tr)
  show ?case
  proof (cases "a = b")
    case True
    then show ?thesis using Br.prems by auto
  next
    case False
    then show ?thesis using Br by (auto split: if_splits)
  qed
qed

lemma rightmost_val:
  "tree_at h p t \<Longrightarrow> t \<noteq> Tip \<Longrightarrow>
   \<exists>ob. h (fst (rightmost t)) = Some ob \<and> val ob = snd (rightmost t)"
  by (induction t arbitrary: p) auto

lemma leftmost_val_at:
  "tree_at h p t \<Longrightarrow> t \<noteq> Tip \<Longrightarrow>
   \<exists>ob. h (fst (leftmost t)) = Some ob \<and> val ob = snd (leftmost t)"
  by (induction t arbitrary: p) auto

lemma pred_top:
  assumes "wf s T P" "T \<noteq> Tip"
  shows "\<exists>b. getPredecessor_loop (heap s) (rt T) = Some (Inr (Ref b))
     \<and> parent_value (heap s) (Ref b) = Inr JNull"
proof -
  obtain l a x r where T: "T = Br l a x r" using assms(2) by (cases T) auto
  have ha: "heap s a = Some \<lparr>kind = BSTNode, val = x, parent = P, left = rt l, right = rt r\<rparr>"
    using assms(1) T by (simp add: wf_def)
  have "P = Null \<or> (\<exists>q. P = Ref q \<and> heap s q = Some (plain_left (Ref a)))"
    using assms(1) T by (auto simp: wf_def root_parent_ok_def)
  then show ?thesis
  proof
    assume "P = Null"
    then have "getPredecessor_loop (heap s) (Ref a) = Some (Inr (Ref a))"
      using ha by (subst getPredecessor_loop.simps) simp
    moreover have "parent_value (heap s) (Ref a) = Inr JNull"
      using ha \<open>P = Null\<close> by (simp add: parent_value_def bindE_def)
    ultimately show ?thesis using T by auto
  next
    assume "\<exists>q. P = Ref q \<and> heap s q = Some (plain_left (Ref a))"
    then obtain q where q: "P = Ref q" "heap s q = Some (plain_left (Ref a))" by blast
    have "getPredecessor_loop (heap s) (Ref q) = Some (Inr (Ref q))"
      using q(2) by (subst getPredecessor_loop.simps) (simp add: plain_left_def)
    then have "getPredecessor_loop (heap s) (Ref a) = Some (Inr (Ref q))"
      using ha q by (subst getPredecessor_loop.simps) (simp add: plain_left_def)
    moreover have "parent_value (heap s) (Ref q) = Inr JNull"
      using q(2) by (simp add: parent_value_def bindE_def plain_left_def)
    ultimately show ?thesis using T by auto
  qed
qed

lemma succ_top:
  assumes "wf s T P" "T \<noteq> Tip"
  shows "\<exists>b. getSuccessor_loop (heap s) (rt T) = Some (Inr (Ref b))
     \<and> parent_value (heap s) (Ref b) = Inr (if P = Null then JNull else JUndefined)"
proof -
  obtain l a x r where T: "T = Br l a x r" using assms(2) by (cases T) auto
  have ha: "heap s a = Some \<lparr>kind = BSTNode, val = x, parent = P, left = rt l, right = rt r\<rparr>"
    using assms(1) T by (simp add: wf_def)
  have "P = Null \<or> (\<exists>q. P = Ref q \<and> heap s q = Some (plain_left (Ref a)))"
    using assms(1) T by (auto simp: wf_def root_parent_ok_def)
  then show ?thesis
  proof
    assume "P = Null"
    then have "getSuccessor_loop (heap s) (Ref a) = Some (Inr (Ref a))"
      using ha by (subst getSuccessor_loop.simps) simp
    moreover have "parent_value (heap s) (Ref a) = Inr JNull"
      using ha \<open>P = Null\<close> by (simp add: parent_value_def bindE_def)
    ultimately show ?thesis using T \<open>P = Null\<close> by auto
  next
    assume "\<exists>q. P = Ref q \<and> heap s q = Some (plain_left (Ref a))"
    then obtain q where q: "P = Ref q" "heap s q = Some (plain_left (Ref a))" by blast
    have "getSuccessor_loop (heap s) (Ref a) = Some (Inr (Ref a))"
      using ha q by (subst getSuccessor_loop.simps) (simp add: plain_left_def)
    moreover have "parent_value (heap s) (Ref a) = Inr JUndefined"
      using ha q by (simp add: parent_value_def bindE_def plain_left_def)
    ultimately show ?thesis using T q(1) by auto
  qed
qed

lemma getPredecessor_missing:
  "wf s T P \<Longrightarrow> find_node (cmp s) v T = Null \<Longrightarrow> getPredecessor s v = Some (Inr JNull)"
  by (simp add: getPredecessor_def search_wf)

lemma getSuccessor_missing:
  "wf s T P \<Longrightarrow> find_node (cmp s) v T = Null \<Longrightarrow> getSuccessor s v = Some (Inr JNull)"
  by (simp add: getSuccessor_def search_wf)

lemma getPredecessor_wf:
  assumes w: "wf s T P" and f: "find_node (cmp s) v T = Ref a"
  shows "getPredecessor s v = Some (Inr (case pred_fun a T of None \<Rightarrow> JNull | Some y \<Rightarrow> y))"
proof -
  have w': "tree_at (heap s) P T" "distinct (addrs T)" using w by (auto simp: wf_def)
  from find_node_subtree [OF w'(2), of "cmp s" v] f
  obtain l r where sub: "subtree a T = Br l a v r" by auto
  then have ain: "a \<in> set (addrs T)" using subtree_Br by fast
  then have TT: "T \<noteq> Tip" by auto
  obtain p where tp: "tree_at (heap s) p (Br l a v r)"
    using tree_at_subtree_full [OF w'(1) sub] by blast
  then have ha: "heap s a = Some \<lparr>kind = BSTNode, val = v, parent = p, left = rt l, right = rt r\<rparr>"
    and tl: "tree_at (heap s) (Ref a) l" by auto
  show ?thesis
  proof (cases "l = Tip")
    case False
    have g: "getRightmostDescendant (heap s) (rt l) = Some (Inr (Ref (fst (rightmost l))))"
      using tl False by (rule getRightmostDescendant_shape)
    obtain ob where ob: "heap s (fst (rightmost l)) = Some ob" "val ob = snd (rightmost l)"
      using rightmost_val [OF tl False] by blast
    have "getPredecessor s v = Some (Inr (snd (rightmost l)))"
      unfolding getPredecessor_def search_wf [OF w] f
      using ha False g ob by (simp add: truthy_rt bindE_def)
    then show ?thesis using sub False by (simp add: pred_fun_def)
  next
    case True
    have pf: "pred_fun a T = up_pred a T" using sub True by (simp add: pred_fun_def)
    have "\<exists>b. getPredecessor_loop (heap s) (Ref a) = Some (Inr (Ref b))
        \<and> parent_value (heap s) (Ref b) = Inr (case up_pred a T of None \<Rightarrow> JNull | Some y \<Rightarrow> y)"
      using getPredecessor_loop_shape [OF w' ain] pred_top [OF w TT]
      by (auto split: option.splits)
    then obtain b where b: "getPredecessor_loop (heap s) (Ref a) = Some (Inr (Ref b))"
      "parent_value (heap s) (Ref b) = Inr (case up_pred a T of None \<Rightarrow> JNull | Some y \<Rightarrow> y)"
      by blast
    show ?thesis
      unfolding getPredecessor_def search_wf [OF w] f pf
      using ha True b by simp
  qed
qed

lemma getSuccessor_wf:
  assumes w: "wf s T P" and f: "find_node (cmp s) v T = Ref a"
  shows "getSuccessor s v =
     Some (Inr (case succ_fun a T of
                  None \<Rightarrow> if P = Null then JNull else JUndefined
                | Some y \<Rightarrow> y))"
proof -
  have w': "tree_at (heap s) P T" "distinct (addrs T)" using w by (auto simp: wf_def)
  from find_node_subtree [OF w'(2), of "cmp s" v] f
  obtain l r where sub: "subtree a T = Br l a v r" by auto
  then have ain: "a \<in> set (addrs T)" using subtree_Br by fast
  then have TT: "T \<noteq> Tip" by auto
  obtain p where tp: "tree_at (heap s) p (Br l a v r)"
    using tree_at_subtree_full [OF w'(1) sub] by blast
  then have ha: "heap s a = Some \<lparr>kind = BSTNode, val = v, parent = p, left = rt l, right = rt r\<rparr>"
    and tr: "tree_at (heap s) (Ref a) r" by auto
  show ?thesis
  proof (cases "r = Tip")
    case False
    have g: "getLeftmostDescendant (heap s) (rt r) = Some (Inr (Ref (fst (leftmost r))))"
      using tr False by (rule getLeftmostDescendant_shape)
    obtain ob where ob: "heap s (fst (leftmost r)) = Some ob" "val ob = snd (leftmost r)"
      using leftmost_val_at [OF tr False] by blast
    have "getSuccessor s v = Some (Inr (snd (leftmost r)))"
      unfolding getSuccessor_def search_wf [OF w] f
      using ha False g ob by (simp add: truthy_rt bindE_def)
    then show ?thesis using sub False by (simp add: succ_fun_def)
  next
    case True
    have pf: "succ_fun a T = up_succ a T" using sub True by (simp add: succ_fun_def)
    have "\<exists>b. getSuccessor_loop (heap s) (Ref a) = Some (Inr (Ref b))
        \<and> parent_value (heap s) (Ref b) =
            Inr (case up_succ a T of None \<Rightarrow> if P = Null then JNull else JUndefined | Some y \<Rightarrow> y)"
      using getSuccessor_loop_shape [OF w' ain] succ_top [OF w TT]
      by (auto split: option.splits)
    then obtain b where b: "getSuccessor_loop (heap s) (Ref a) = Some (Inr (Ref b))"
      "parent_value (heap s) (Ref b) =
         Inr (case up_succ a T of None \<Rightarrow> if P = Null then JNull else JUndefined | Some y \<Rightarrow> y)"
      by blast
    show ?thesis
      unfolding getSuccessor_def search_wf [OF w] f pf
      using ha True b by simp
  qed
qed

subsection \<open>Neighbours in the in-order sequence\<close>

lemma map_fst_inorder: "map fst (inorder T) = addrs T"
  by (induction T) auto

lemma map_snd_inorder: "map snd (inorder T) = vals T"
  by (induction T) auto

lemma inorder_Nil: "(inorder T = []) = (T = Tip)"
  by (cases T) auto

lemma keys_inorder: "fst ` set (inorder T) = set (addrs T)"
  using map_fst_inorder [of T] by (metis set_map)

lemma rightmost_last: "t \<noteq> Tip \<Longrightarrow> rightmost t = last (inorder t)"
  by (induction t) (auto simp: inorder_Nil)

lemma leftmost_first: "t \<noteq> Tip \<Longrightarrow> leftmost t = hd (inorder t)"
  by (induction t) (auto simp: inorder_Nil)

lemma subtree_inorder: "subtree a T = Br l a v r \<Longrightarrow> (a, v) \<in> set (inorder T)"
  by (induction T) (auto split: if_splits)

lemma prev_of_absent: "a \<notin> fst ` set zs \<Longrightarrow> prev_of a zs = None"
  by (induction a zs rule: prev_of.induct) auto

lemma prev_of_absent_tl: "a \<notin> fst ` set zs \<Longrightarrow> prev_of a (e # zs) = None"
  by (cases zs) (auto simp: prev_of_absent)

lemma prev_of_append_left:
  "a \<notin> fst ` set ys \<Longrightarrow> prev_of a (xs @ ys) = prev_of a xs"
proof (induction a xs rule: prev_of.induct)
  case (1 a e1 e2 es)
  then show ?case by simp
qed (simp_all add: prev_of_absent prev_of_absent_tl)

lemma prev_of_append_right:
  "a \<notin> fst ` set xs \<Longrightarrow> xs \<noteq> [] \<Longrightarrow> ys \<noteq> [] \<Longrightarrow>
   prev_of a (xs @ ys) = (if fst (hd ys) = a then Some (snd (last xs)) else prev_of a ys)"
proof (induction a xs rule: prev_of.induct)
  case (1 a e1 e2 es)
  then show ?case by auto
qed (auto simp: neq_Nil_conv)

lemma prev_of_None_iff:
  "distinct (map fst zs) \<Longrightarrow> a \<in> fst ` set zs \<Longrightarrow> (prev_of a zs = None) = (fst (hd zs) = a)"
proof (induction a zs rule: prev_of.induct)
  case (1 a e1 e2 es)
  show ?case
  proof (cases "fst e2 = a")
    case True
    then show ?thesis using "1.prems"(1) by auto
  next
    case False
    show ?thesis
    proof (cases "fst e1 = a")
      case True
      then have "a \<notin> set (map fst (e2 # es))" using "1.prems"(1) by auto
      then have "a \<notin> fst ` set (e2 # es)" by simp
      then have "prev_of a (e2 # es) = None" by (rule prev_of_absent)
      then show ?thesis using True False by simp
    next
      case ne: False
      then have m: "a \<in> fst ` set (e2 # es)" using "1.prems"(2) by auto
      have d: "distinct (map fst (e2 # es))" using "1.prems"(1) by simp
      from "1.IH" [OF False d m] show ?thesis using False ne by simp
    qed
  qed
qed simp_all

lemma next_of_skip: "fst e \<noteq> a \<Longrightarrow> next_of a (e # zs) = next_of a zs"
  by (cases zs) auto

lemma next_of_append_right:
  "a \<notin> fst ` set xs \<Longrightarrow> next_of a (xs @ ys) = next_of a ys"
  by (induction xs) (auto simp: next_of_skip)

lemma next_of_append_left:
  "a \<in> fst ` set xs \<Longrightarrow> ys \<noteq> [] \<Longrightarrow>
   next_of a (xs @ ys) = (case next_of a xs of None \<Rightarrow> Some (snd (hd ys)) | Some u \<Rightarrow> Some u)"
proof (induction a xs rule: next_of.induct)
  case (1 a e1 e2 es)
  then show ?case by auto
qed (auto simp: neq_Nil_conv)

lemma next_of_head: "next_of a ((a, x) # zs) = (if zs = [] then None else Some (snd (hd zs)))"
  by (cases zs) auto

lemma subtree_in: "a \<in> set (addrs T) \<Longrightarrow> \<exists>l x r. subtree a T = Br l a x r"
  by (induction T) auto

lemma pred_fun_root: "pred_fun b (Br l b x r) = (if l \<noteq> Tip then Some (snd (rightmost l)) else None)"
  by (simp add: pred_fun_def)

lemma pred_fun_left:
  assumes "a \<in> set (addrs l)" "a \<noteq> b"
  shows "pred_fun a (Br l b x r) = pred_fun a l"
proof -
  obtain sl sx sr where s: "subtree a l = Br sl a sx sr"
    using subtree_in [OF assms(1)] by blast
  show ?thesis using assms s by (simp add: pred_fun_def)
qed

lemma pred_fun_right:
  assumes "a \<in> set (addrs r)" "a \<notin> set (addrs l)" "a \<noteq> b"
  shows "pred_fun a (Br l b x r) = (case pred_fun a r of None \<Rightarrow> Some x | Some y \<Rightarrow> Some y)"
proof -
  obtain sl sx sr where s: "subtree a r = Br sl a sx sr"
    using subtree_in [OF assms(1)] by blast
  show ?thesis using assms s by (simp add: pred_fun_def)
qed

lemma succ_fun_root: "succ_fun b (Br l b x r) = (if r \<noteq> Tip then Some (snd (leftmost r)) else None)"
  by (simp add: succ_fun_def)

lemma succ_fun_right:
  assumes "a \<in> set (addrs r)" "a \<notin> set (addrs l)" "a \<noteq> b"
  shows "succ_fun a (Br l b x r) = succ_fun a r"
proof -
  obtain sl sx sr where s: "subtree a r = Br sl a sx sr"
    using subtree_in [OF assms(1)] by blast
  show ?thesis using assms s by (simp add: succ_fun_def)
qed

lemma succ_fun_left:
  assumes "a \<in> set (addrs l)" "a \<noteq> b"
  shows "succ_fun a (Br l b x r) = (case succ_fun a l of None \<Rightarrow> Some x | Some y \<Rightarrow> Some y)"
proof -
  obtain sl sx sr where s: "subtree a l = Br sl a sx sr"
    using subtree_in [OF assms(1)] by blast
  show ?thesis using assms s by (simp add: succ_fun_def)
qed

lemma pred_fun_prev:
  "distinct (addrs T) \<Longrightarrow> a \<in> set (addrs T) \<Longrightarrow> pred_fun a T = prev_of a (inorder T)"
proof (induction T)
  case Tip
  then show ?case by simp
next
  case (Br l b x r)
  have dl: "distinct (addrs l)" and dr: "distinct (addrs r)"
    and bl: "b \<notin> set (addrs l)" and br: "b \<notin> set (addrs r)"
    and lr: "set (addrs l) \<inter> set (addrs r) = {}"
    using Br.prems(1) by auto
  consider "a = b" | "a \<noteq> b" "a \<in> set (addrs l)" | "a \<noteq> b" "a \<notin> set (addrs l)" "a \<in> set (addrs r)"
    using Br.prems(2) by auto
  then show ?case
  proof cases
    case 1
    have nb: "b \<notin> fst ` set (inorder l)" "b \<notin> fst ` set (inorder r)"
      using bl br by (simp_all add: keys_inorder)
    show ?thesis
    proof (cases "l = Tip")
      case True
      then show ?thesis using 1 nb by (simp add: pred_fun_root prev_of_absent_tl)
    next
      case False
      have "prev_of b (inorder l @ (b, x) # inorder r) = Some (snd (last (inorder l)))"
        using nb(1) False by (subst prev_of_append_right) (auto simp: inorder_Nil)
      then show ?thesis using 1 False by (simp add: pred_fun_root rightmost_last)
    qed
  next
    case 2
    have "a \<notin> fst ` set ((b, x) # inorder r)"
      using 2 lr by (auto simp: keys_inorder [symmetric])
    then have "prev_of a (inorder l @ (b, x) # inorder r) = prev_of a (inorder l)"
      by (rule prev_of_append_left)
    then show ?thesis using 2 Br.IH(1) [OF dl 2(2)] by (simp add: pred_fun_left)
  next
    case 3
    then have rT: "inorder r \<noteq> []" by (auto simp: inorder_Nil)
    have na: "a \<notin> fst ` set (inorder l @ [(b, x)])"
      using 3 by (auto simp: keys_inorder [symmetric])
    have kr: "a \<in> fst ` set (inorder r)" using 3 by (simp add: keys_inorder)
    have dkr: "distinct (map fst (inorder r))" using dr by (simp add: map_fst_inorder)
    have "prev_of a ((inorder l @ [(b, x)]) @ inorder r) =
        (if fst (hd (inorder r)) = a then Some x else prev_of a (inorder r))"
      using na rT by (subst prev_of_append_right) auto
    moreover have "(prev_of a (inorder r) = None) = (fst (hd (inorder r)) = a)"
      using dkr kr by (rule prev_of_None_iff)
    ultimately have "prev_of a (inorder (Br l b x r)) =
        (case prev_of a (inorder r) of None \<Rightarrow> Some x | Some y \<Rightarrow> Some y)"
      by (auto split: option.splits)
    then show ?thesis using 3 Br.IH(2) [OF dr 3(3)] by (simp add: pred_fun_right)
  qed
qed

lemma succ_fun_next:
  "distinct (addrs T) \<Longrightarrow> a \<in> set (addrs T) \<Longrightarrow> succ_fun a T = next_of a (inorder T)"
proof (induction T)
  case Tip
  then show ?case by simp
next
  case (Br l b x r)
  have dl: "distinct (addrs l)" and dr: "distinct (addrs r)"
    and bl: "b \<notin> set (addrs l)" and br: "b \<notin> set (addrs r)"
    and lr: "set (addrs l) \<inter> set (addrs r) = {}"
    using Br.prems(1) by auto
  consider "a = b" | "a \<noteq> b" "a \<in> set (addrs l)" | "a \<noteq> b" "a \<notin> set (addrs l)" "a \<in> set (addrs r)"
    using Br.prems(2) by auto
  then show ?case
  proof cases
    case 1
    have "b \<notin> fst ` set (inorder l)" using bl by (simp add: keys_inorder)
    then have "next_of b (inorder l @ (b, x) # inorder r) = next_of b ((b, x) # inorder r)"
      by (rule next_of_append_right)
    then show ?thesis
      using 1 by (simp add: succ_fun_root next_of_head inorder_Nil leftmost_first)
  next
    case 2
    have "a \<in> fst ` set (inorder l)" using 2 by (simp add: keys_inorder)
    then have "next_of a (inorder l @ (b, x) # inorder r) =
        (case next_of a (inorder l) of None \<Rightarrow> Some x | Some u \<Rightarrow> Some u)"
      by (subst next_of_append_left) (auto split: option.splits)
    then show ?thesis using 2 Br.IH(1) [OF dl 2(2)] by (simp add: succ_fun_left)
  next
    case 3
    have "a \<notin> fst ` set (inorder l @ [(b, x)])"
      using 3 by (auto simp: keys_inorder [symmetric])
    then have "next_of a ((inorder l @ [(b, x)]) @ inorder r) = next_of a (inorder r)"
      by (rule next_of_append_right)
    then show ?thesis using 3 Br.IH(2) [OF dr 3(3)] by (simp add: succ_fun_right)
  qed
qed

lemma prev_of_Some_tl: "prev_of a zs = Some u \<Longrightarrow> a \<in> fst ` set (tl zs)"
  by (induction a zs rule: prev_of.induct) (auto split: if_splits)

lemma key_unique:
  "distinct (map fst zs) \<Longrightarrow> (a, v) \<in> set zs \<Longrightarrow> (a, w) \<in> set zs \<Longrightarrow> v = w"
  by (induction zs) force+

lemma prev_next:
  "distinct (map fst zs) \<Longrightarrow> (a, v) \<in> set zs \<Longrightarrow> prev_of a zs = Some u \<Longrightarrow>
   \<exists>a'. (a', u) \<in> set zs \<and> next_of a' zs = Some v"
proof (induction a zs rule: prev_of.induct)
  case (1 a e1 e2 es)
  show ?case
  proof (cases "fst e2 = a")
    case True
    then have "u = snd e1" using "1.prems"(3) by simp
    moreover have "(a, snd e2) \<in> set (e1 # e2 # es)" using True by (cases e2) auto
    then have "snd e2 = v" using "1.prems"(1,2) key_unique by fast
    ultimately show ?thesis by (intro exI [of _ "fst e1"]) simp
  next
    case False
    then have p: "prev_of a (e2 # es) = Some u" using "1.prems"(3) by simp
    then have "a \<in> fst ` set es" using prev_of_Some_tl by fastforce
    then have "fst e1 \<noteq> a" using "1.prems"(1) by auto
    then have m: "(a, v) \<in> set (e2 # es)" using "1.prems"(2) by auto
    have d: "distinct (map fst (e2 # es))" using "1.prems"(1) by simp
    from "1.IH" [OF False d m p]
    obtain a' where a': "(a', u) \<in> set (e2 # es)" "next_of a' (e2 # es) = Some v" by blast
    then have "a' \<in> fst ` set (e2 # es)" by force
    then have "fst e1 \<noteq> a'" using "1.prems"(1) by auto
    then show ?thesis using a' by (intro exI [of _ a']) auto
  qed
qed simp_all

lemma next_prev:
  "distinct (map fst zs) \<Longrightarrow> (a, v) \<in> set zs \<Longrightarrow> next_of a zs = Some w \<Longrightarrow>
   \<exists>a'. (a', w) \<in> set zs \<and> prev_of a' zs = Some v"
proof (induction a zs rule: next_of.induct)
  case (1 a e1 e2 es)
  show ?case
  proof (cases "fst e1 = a")
    case True
    then have "w = snd e2" using "1.prems"(3) by simp
    moreover have "(a, snd e1) \<in> set (e1 # e2 # es)" using True by (cases e1) auto
    then have "snd e1 = v" using "1.prems"(1,2) key_unique by fast
    ultimately show ?thesis by (intro exI [of _ "fst e2"]) simp
  next
    case False
    then have p: "next_of a (e2 # es) = Some w" using "1.prems"(3) by simp
    have m: "(a, v) \<in> set (e2 # es)" using "1.prems"(2) False by auto
    have d: "distinct (map fst (e2 # es))" using "1.prems"(1) by simp
    from "1.IH" [OF False d m p]
    obtain a' where a': "(a', w) \<in> set (e2 # es)" "prev_of a' (e2 # es) = Some v" by blast
    have "a' \<noteq> fst e2"
    proof
      assume "a' = fst e2"
      moreover have "a' \<in> fst ` set (tl (e2 # es))" using a'(2) by (rule prev_of_Some_tl)
      ultimately show False using d by auto
    qed
    then show ?thesis using a' by (intro exI [of _ a']) auto
  qed
qed simp_all

lemma next_of_None_last:
  "(a, v) \<in> set zs \<Longrightarrow> distinct (map fst zs) \<Longrightarrow> next_of a zs = None \<Longrightarrow> last zs = (a, v)"
proof (induction a zs rule: next_of.induct)
  case (1 a e1 e2 es)
  then have "fst e1 \<noteq> a" by auto
  then show ?case using 1 by auto
qed auto

lemma ascending_last: "ascending c zs \<Longrightarrow> zs \<noteq> [] \<Longrightarrow> y \<in> set zs \<Longrightarrow> c (last zs) y \<Longrightarrow> y = last zs"
proof -
  assume a: "ascending c zs" "zs \<noteq> []" "y \<in> set zs" "c (last zs) y"
  have "zs = butlast zs @ [last zs]" using a(2) by simp
  then have "ascending c (butlast zs @ [last zs])" using a(1) by simp
  then have "\<forall>x\<in>set (butlast zs). \<not> c (last zs) x" by (simp add: ascending_append)
  moreover have "y \<in> set (butlast zs) \<or> y = last zs"
    using a(2,3) by (metis Un_iff \<open>zs = butlast zs @ [last zs]\<close> empty_iff empty_set set_ConsD set_append)
  ultimately show ?thesis using a(4) by blast
qed

subsection \<open>The least and the greatest value\<close>

lemma min_node:
  assumes o: "strict_total_on A c"
  shows "search_tree c T \<Longrightarrow> set (vals T) \<subseteq> A \<Longrightarrow> distinct (addrs T) \<Longrightarrow> v \<in> set (vals T) \<Longrightarrow>
     \<forall>y\<in>set (vals T). \<not> c y v \<Longrightarrow>
     \<exists>a r. find_node c v T = Ref a \<and> subtree a T = Br Tip a v r \<and> up_pred a T = None"
proof (induction T)
  case Tip
  then show ?case by simp
next
  case (Br l b x r)
  have tot: "\<And>u w. u \<in> A \<Longrightarrow> w \<in> A \<Longrightarrow> u \<noteq> w \<Longrightarrow> c u w \<or> c w u"
    using o unfolding strict_total_on_def by blast
  have xA: "x \<in> A" and vA: "v \<in> A" using Br.prems(2,4) by auto
  show ?case
  proof (cases "x = v")
    case True
    have "vals l = []"
    proof (rule ccontr)
      assume "vals l \<noteq> []"
      then obtain y where y: "y \<in> set (vals l)" by (cases "vals l") auto
      then have "c y x" using Br.prems(1) by simp
      moreover have "\<not> c y v" using y Br.prems(5) by simp
      ultimately show False using True by simp
    qed
    then have "l = Tip" by (simp add: vals_Nil)
    then show ?thesis using True by simp
  next
    case False
    have "\<not> c x v" using Br.prems(5) by simp
    then have cvx: "c v x" using tot [OF xA vA] False by blast
    then have "v \<notin> set (vals r)" using Br.prems(1) by auto
    then have vl: "v \<in> set (vals l)" using Br.prems(4) False by auto
    have "\<exists>a r. find_node c v l = Ref a \<and> subtree a l = Br Tip a v r \<and> up_pred a l = None"
      using Br.IH(1) Br.prems vl by auto
    then obtain a r' where a: "find_node c v l = Ref a" "subtree a l = Br Tip a v r'"
      "up_pred a l = None" by blast
    have al: "a \<in> set (addrs l)" using a(2) subtree_Br by fast
    then have ab: "a \<noteq> b" using Br.prems(3) by auto
    show ?thesis using a al ab False cvx by simp
  qed
qed

lemma max_node:
  assumes o: "strict_total_on A c"
  shows "search_tree c T \<Longrightarrow> set (vals T) \<subseteq> A \<Longrightarrow> distinct (addrs T) \<Longrightarrow> count_list (vals T) v = 1 \<Longrightarrow>
     \<forall>y\<in>set (vals T). \<not> c v y \<Longrightarrow>
     \<exists>a l. find_node c v T = Ref a \<and> subtree a T = Br l a v Tip \<and> up_succ a T = None"
proof (induction T)
  case Tip
  then show ?case by simp
next
  case (Br l b x r)
  have tot: "\<And>u w. u \<in> A \<Longrightarrow> w \<in> A \<Longrightarrow> u \<noteq> w \<Longrightarrow> c u w \<or> c w u"
    using o unfolding strict_total_on_def by blast
  have vin: "v \<in> set (vals (Br l b x r))"
    using Br.prems(4) by (metis count_list_0_iff zero_neq_one)
  have xA: "x \<in> A" and vA: "v \<in> A" and rA: "set (vals r) \<subseteq> A" using Br.prems(2) vin by auto
  show ?case
  proof (cases "x = v")
    case True
    have "vals r = []"
    proof (rule ccontr)
      assume "vals r \<noteq> []"
      then obtain y where y: "y \<in> set (vals r)" by (cases "vals r") auto
      then have "\<not> c y v" using Br.prems(1) True by simp
      moreover have "\<not> c v y" using y Br.prems(5) by simp
      ultimately have "y = v" using tot [of y v] y rA vA by blast
      then have "count_list (vals r) v \<noteq> 0" using y by (simp add: count_list_0_iff)
      then show False using Br.prems(4) True by simp
    qed
    then have "r = Tip" by (simp add: vals_Nil)
    then show ?thesis using True by simp
  next
    case False
    have "\<not> c v x" using Br.prems(5) by simp
    then have "v \<notin> set (vals l)" using Br.prems(1) by auto
    then have cl: "count_list (vals l) v = 0" by (simp add: count_list_0_iff)
    then have cr: "count_list (vals r) v = 1" using Br.prems(4) False by simp
    have "\<exists>a l. find_node c v r = Ref a \<and> subtree a r = Br l a v Tip \<and> up_succ a r = None"
      using Br.IH(2) Br.prems cr by auto
    then obtain a l' where a: "find_node c v r = Ref a" "subtree a r = Br l' a v Tip"
      "up_succ a r = None" by blast
    have ar: "a \<in> set (addrs r)" using a(2) subtree_Br by fast
    then have ab: "a \<noteq> b" and al: "a \<notin> set (addrs l)" using Br.prems(3) by auto
    show ?thesis using a al ab False \<open>\<not> c v x\<close> by simp
  qed
qed

lemma inorder_mem: "(a, x) \<in> set (inorder T) \<Longrightarrow> a \<in> set (addrs T) \<and> x \<in> set (vals T)"
  by (induction T) auto

lemma run_reaches:
  assumes o: "strict_total_on A c" and i: "inserts_in A xs"
    and r: "run (empty_tree c) xs = Some (Inr (rets, s))"
  shows "\<exists>T P. wf s T P \<and> cmp s = c \<and> search_tree c T \<and> set (vals T) \<subseteq> A"
proof -
  let ?T = "fst (arun c xs (Tip, 0))"
  from run_wf [OF wf_empty, of c xs] r
  obtain P where "wf s ?T P" "cmp s = c" by (auto simp: empty_tree_def)
  moreover from arun_bst [OF o i, of Tip 0]
  have "search_tree c ?T" "set (vals ?T) \<subseteq> A" by auto
  ultimately show ?thesis by blast
qed

lemma toArray_vals:
  assumes "wf s T P" "toArray s = Some (Inr arr)"
  shows "T \<noteq> Tip \<and> arr = vals T"
proof (cases "T = Tip")
  case True
  then have "root s = Null" using assms(1) by (simp add: wf_def)
  then have "toArray s = Some (Inl TypeError)"
    by (subst toArray_def, subst toArray_at.simps) (simp add: Let_def)
  then show ?thesis using assms(2) by simp
next
  case False
  then show ?thesis using toArray_wf [OF assms(1) False] assms(2) by simp
qed

lemma root_parent:
  assumes "wf s T P" "T \<noteq> Tip" "deref (heap s) (root s) = Inr ob"
  shows "parent ob = P"
proof -
  obtain l a x r where T: "T = Br l a x r" using assms(2) by (cases T) auto
  show ?thesis using assms(1,3) T by (auto simp: wf_def)
qed

subsection \<open>The default ordering, the empty tree, the constructor\<close>

lemma default_cmp_strict_total: "strict_total_on (range JVal) default_cmp"
  by (auto simp: strict_total_on_def default_cmp_def)

lemma run_caseD:
  "(case R of None \<Rightarrow> False | Some (Inl e) \<Rightarrow> False | Some (Inr (rets, s)) \<Rightarrow> Q rets s) \<Longrightarrow>
   \<exists>rets s. R = Some (Inr (rets, s)) \<and> Q rets s"
  by (auto split: option.splits sum.splits)

lemma empty_root_ops:
  assumes "root s = Null"
  shows "toArray s = Some (Inl TypeError)"
    and "\<exists>s'. insert' s v = Some (Inr (JVal (length' s + 1), s'))"
    and "search s v = Some (Inr Null)"
    and "remove' s v = Some (Inr (JNull, s))"
    and "getPredecessor s v = Some (Inr JNull)"
    and "getSuccessor s v = Some (Inr JNull)"
proof -
  show "toArray s = Some (Inl TypeError)"
    using assms by (subst toArray_def, subst toArray_at.simps) (simp add: Let_def)
  show "\<exists>s'. insert' s v = Some (Inr (JVal (length' s + 1), s'))"
    using assms by (subst insert'_def, subst insert_at.simps) (simp add: alloc_def pre_inc_def Let_def)
  show s: "search s v = Some (Inr Null)"
    using assms by (subst search_def, subst search_at.simps) (simp add: Let_def)
  show "remove' s v = Some (Inr (JNull, s))" using s by (simp add: remove'_def)
  show "getPredecessor s v = Some (Inr JNull)" using s by (simp add: getPredecessor_def)
  show "getSuccessor s v = Some (Inr JNull)" using s by (simp add: getSuccessor_def)
qed

lemma run_toArray_defined:
  assumes "run (empty_tree c) xs = Some (Inr (rets, s))" "root s \<noteq> Null"
  shows "\<exists>arr. toArray s = Some (Inr arr)"
proof -
  let ?T = "fst (arun c xs (Tip, 0))"
  from run_wf [OF wf_empty, of c xs] assms(1)
  obtain P where w: "wf s ?T P" by (auto simp: empty_tree_def)
  then have "?T \<noteq> Tip" using assms(2) by (auto simp: wf_def)
  with w show ?thesis using toArray_wf by blast
qed

lemma insert_each_run:
  "insert_each s items = map_option (map_sum id snd) (run s (map Insert items))"
proof (induction items arbitrary: s)
  case Nil
  then show ?case by simp
next
  case (Cons item items)
  show ?case
  proof (cases "insert' s item")
    case None
    then show ?thesis by simp
  next
    case (Some res)
    show ?thesis
    proof (cases res)
      case (Inl e)
      then show ?thesis using Some by simp
    next
      case (Inr p)
      obtain n s' where p: "p = (n, s')" by (cases p)
      show ?thesis
        using Some Inr p Cons.IH [of s']
        by (cases "run s' (map Insert items)") (auto split: sum.splits)
    qed
  qed
qed

lemma BinarySearchTree_run:
  "BinarySearchTree list c = map_option (map_sum id snd) (run (empty_tree c) (map Insert list))"
  by (simp add: BinarySearchTree_def insert_each_run)

lemma one_node_built: "BinarySearchTree [JVal n] default_cmp = Some (Inr (one_node n))"
proof -
  have "insert' (empty_tree default_cmp) (JVal n) = Some (Inr (JVal 1, one_node n))"
    by (subst insert'_def, subst insert_at.simps)
      (simp add: empty_tree_def alloc_def pre_inc_def one_node_def Let_def)
  then show ?thesis by (simp add: BinarySearchTree_def)
qed

lemma getSuccessor_undefined_after_root_removal:
  "(case run (empty_tree default_cmp) [Insert (JVal 5), Insert (JVal 3), Remove (JVal 5)] of
      Some (Inr (rets, s)) \<Rightarrow>
        toArray s = Some (Inr [JVal 3]) \<and> getSuccessor s (JVal 3) = Some (Inr JUndefined)
        \<and> getPredecessor s (JVal 3) = Some (Inr JNull)
    | _ \<Rightarrow> False)"
  by code_simp

section \<open>The claims\<close>

text \<open>
  Claim C1: \<^verbatim>\<open>insert(value)\<close> returns the tree's new element count, however deep the
  new node is attached. The source returns the count only when the node becomes the root
  or a child of the root: the recursive calls of lines 63 and 74 are not returned, so
  a deeper insertion returns \<^verbatim>\<open>undefined\<close>. Inserting 5, 3, 1 into an empty tree
  returns 1, 2 and \<^verbatim>\<open>undefined\<close>, and leaves the count 3.
\<close>

theorem insert_below_child_returns_undefined:
  "(case run (empty_tree default_cmp) [Insert (JVal 5), Insert (JVal 3), Insert (JVal 1)] of
      Some (Inr (rets, s)) \<Rightarrow> rets = [JVal 1, JVal 2, JUndefined] \<and> length' s = 3
    | _ \<Rightarrow> False)"
  by code_simp

text \<open>
  Claim C2: after \<^verbatim>\<open>remove\<close>, the root's \<^verbatim>\<open>parent\<close> is \<^verbatim>\<open>null\<close> and no live node
  keeps the transient placeholder as its parent. After inserting 5 and 3, \<^verbatim>\<open>remove(5)\<close>
  makes the node of 3 (address 1) the root, and its \<^verbatim>\<open>parent\<close> is the plain object
  \<^verbatim>\<open>{left: root}\<close> (address 2) that line 120 made; nothing resets it. The same
  holds when the removed root has two children and stays the root (second part).
\<close>

theorem remove_root_leaves_placeholder_parent:
  "(case run (empty_tree default_cmp) [Insert (JVal 5), Insert (JVal 3), Remove (JVal 5)] of
      Some (Inr (rets, s)) \<Rightarrow>
        root s = Ref 1
        \<and> heap s 1 = Some \<lparr>kind = BSTNode, val = JVal 3, parent = Ref 2, left = Null, right = Null\<rparr>
        \<and> heap s 2 = Some (plain_left (Ref 1))
    | _ \<Rightarrow> False)
   \<and> (case run (empty_tree default_cmp)
          (map (\<lambda>n. Insert (JVal n)) [5, 3, 8, 1, 4, 7, 9] @ [Remove (JVal 5)]) of
        Some (Inr (rets, s)) \<Rightarrow>
          root s = Ref 0 \<and> map_option parent (heap s 0) = Some (Ref 7)
          \<and> heap s 7 = Some (plain_left (Ref 0))
      | _ \<Rightarrow> False)"
  by code_simp

text \<open>
  Claim C3: after every sequence of \<^verbatim>\<open>insert\<close> and \<^verbatim>\<open>remove\<close> calls on a tree with
  a strict total ordering, \<^verbatim>\<open>toArray()\<close> yields the stored elements in ascending
  order. On the empty tree (before any call, or after inserting 1 and removing it)
  \<^verbatim>\<open>toArray()\<close> yields nothing: line 169 reads \<^verbatim>\<open>node.left\<close> of the \<^verbatim>\<open>null\<close> root
  and throws. (On every tree with an element the claim holds: lemma
  \<open>sorted_after_run\<close>.)
\<close>

theorem toArray_empty_tree_throws:
  "toArray (empty_tree default_cmp) = Some (Inl TypeError)
   \<and> (case run (empty_tree default_cmp) [Insert (JVal 1), Remove (JVal 1)] of
        Some (Inr (rets, s)) \<Rightarrow>
          rets = [JVal 1, JVal 0] \<and> length' s = 0 \<and> toArray s = Some (Inl TypeError)
      | _ \<Rightarrow> False)"
  by code_simp

text \<open>
  Claim C4: in every non-empty reachable tree, \<^verbatim>\<open>getPredecessor\<close> of the minimum and
  \<^verbatim>\<open>getSuccessor\<close> of the maximum return \<^verbatim>\<open>null\<close>. As stated this fails where the
  maximum is stored twice: after inserting 5 and 5, \<^verbatim>\<open>getSuccessor(5)\<close> is 5, the equal
  value that \<^verbatim>\<open>insert\<close> put to the right.
\<close>

theorem getSuccessor_max_duplicate:
  "(case run (empty_tree default_cmp) [Insert (JVal 5), Insert (JVal 5)] of
      Some (Inr (rets, s)) \<Rightarrow>
        toArray s = Some (Inr [JVal 5, JVal 5])
        \<and> getSuccessor s (JVal 5) = Some (Inr (JVal 5))
    | _ \<Rightarrow> False)"
  by code_simp

text \<open>
  Claim C4, amended: let the calls insert values on which the comparison is a strict
  total order, and let \<^verbatim>\<open>toArray()\<close> return \<open>arr\<close> afterwards (so the tree is not
  empty). Then \<^verbatim>\<open>getPredecessor(v)\<close> is \<^verbatim>\<open>null\<close> for a stored \<open>v\<close> that nothing
  stored is less than; and \<^verbatim>\<open>getSuccessor(w)\<close> is \<^verbatim>\<open>null\<close> for a stored \<open>w\<close> that
  is less than nothing stored, when \<open>w\<close> is stored once and the root's \<^verbatim>\<open>parent\<close> is
  \<^verbatim>\<open>null\<close>.
\<close>

theorem extremes_absent:
  assumes o: "strict_total_on A c" and i: "inserts_in A xs"
    and r: "run (empty_tree c) xs = Some (Inr (rets, s))"
    and t: "toArray s = Some (Inr arr)"
  shows "(v \<in> set arr \<and> (\<forall>y\<in>set arr. \<not> c y v) \<longrightarrow> getPredecessor s v = Some (Inr JNull))
     \<and> (w \<in> set arr \<and> (\<forall>y\<in>set arr. \<not> c w y) \<and> count_list arr w = 1
          \<and> (\<exists>ob. deref (heap s) (root s) = Inr ob \<and> parent ob = Null)
        \<longrightarrow> getSuccessor s w = Some (Inr JNull))"
proof -
  from run_reaches [OF o i r]
  obtain T P where w: "wf s T P" and c: "cmp s = c" and b: "search_tree c T" and A: "set (vals T) \<subseteq> A"
    by blast
  have T: "T \<noteq> Tip" and arr: "arr = vals T" using toArray_vals [OF w t] by auto
  have d: "distinct (addrs T)" using w by (simp add: wf_def)
  have 1: "getPredecessor s v = Some (Inr JNull)"
    if "v \<in> set arr" "\<forall>y\<in>set arr. \<not> c y v"
  proof -
    from min_node [OF o b A d] that arr
    obtain a r where a: "find_node c v T = Ref a" "subtree a T = Br Tip a v r" "up_pred a T = None"
      by blast
    have "pred_fun a T = None" using a(2,3) by (simp add: pred_fun_def)
    then show ?thesis using getPredecessor_wf [OF w, of v a] a(1) c by simp
  qed
  have 2: "getSuccessor s w = Some (Inr JNull)"
    if "w \<in> set arr" "\<forall>y\<in>set arr. \<not> c w y" "count_list arr w = 1"
      "\<exists>ob. deref (heap s) (root s) = Inr ob \<and> parent ob = Null"
  proof -
    from max_node [OF o b A d] that arr
    obtain a l where a: "find_node c w T = Ref a" "subtree a T = Br l a w Tip" "up_succ a T = None"
      by blast
    have "succ_fun a T = None" using a(2,3) by (simp add: succ_fun_def)
    moreover have "P = Null" using that(4) root_parent [OF w T] by auto
    ultimately show ?thesis using getSuccessor_wf [OF w, of w a] a(1) c by simp
  qed
  show ?thesis using 1 2 by blast
qed

theorem extremes_absent_witness:
  "\<exists>rets s. run (empty_tree default_cmp)
       [Insert (JVal 5), Insert (JVal 3), Insert (JVal 8), Insert (JVal 9), Remove (JVal 9)]
       = Some (Inr (rets, s))
     \<and> toArray s = Some (Inr [JVal 3, JVal 5, JVal 8])
     \<and> getPredecessor s (JVal 3) = Some (Inr JNull)
     \<and> getSuccessor s (JVal 8) = Some (Inr JNull)"
proof -
  let ?xs = "[Insert (JVal 5), Insert (JVal 3), Insert (JVal 8), Insert (JVal 9), Remove (JVal 9)]"
  have "(case run (empty_tree default_cmp) ?xs of
           None \<Rightarrow> False
         | Some (Inl e) \<Rightarrow> False
         | Some (Inr (rets, s)) \<Rightarrow>
             toArray s = Some (Inr [JVal 3, JVal 5, JVal 8])
             \<and> map_sum id parent (deref (heap s) (root s)) = Inr Null)"
    by code_simp
  from run_caseD [OF this]
  obtain rets s where r: "run (empty_tree default_cmp) ?xs = Some (Inr (rets, s))"
    and t: "toArray s = Some (Inr [JVal 3, JVal 5, JVal 8])"
    and p: "map_sum id parent (deref (heap s) (root s)) = Inr Null" by blast
  have p': "\<exists>ob. deref (heap s) (root s) = Inr ob \<and> parent ob = Null"
    using p by (cases "deref (heap s) (root s)") auto
  have i: "inserts_in (range JVal) ?xs" by simp
  from extremes_absent [OF default_cmp_strict_total i r t, of "JVal 3" "JVal 8"] p'
  have "getPredecessor s (JVal 3) = Some (Inr JNull) \<and> getSuccessor s (JVal 8) = Some (Inr JNull)"
    by (simp add: default_cmp_def)
  then show ?thesis using r t by blast
qed

text \<open>
  Claim C5: after every sequence of calls from the empty tree (whatever the comparison
  function), every call has returned, the count \<^verbatim>\<open>length\<close> is the number of nodes
  reachable from the root, and it is the number of inserts minus the number of removes
  that returned a count. (Only \<^verbatim>\<open>insert\<close> and \<^verbatim>\<open>remove\<close> write to the tree; the other
  methods take the tree and return a value.)
\<close>

theorem count_consistency:
  "\<exists>rets s. run (empty_tree c) xs = Some (Inr (rets, s))
     \<and> length' s = int (card {a. reach (heap s) (root s) a})
     \<and> length' s = int (inserted xs) - int (removed xs rets)"
proof -
  from run_wf [OF wf_empty, of c xs]
  obtain rets s P where r: "run (empty_tree c) xs = Some (Inr (rets, s))"
    "wf s (fst (arun c xs (Tip, 0))) P"
    "length' s = length' (empty_tree c) + int (inserted xs) - int (removed xs rets)"
    by (auto simp: empty_tree_def)
  from r(2) have "length' s = int (card {a. reach (heap s) (root s) a})" by (rule wf_card)
  then show ?thesis using r(1,3) by (auto simp: empty_tree_def)
qed

theorem count_consistency_witness:
  "\<exists>rets s. run (empty_tree default_cmp)
        [Insert (JVal 5), Insert (JVal 3), Remove (JVal 5), Remove (JVal 9)] = Some (Inr (rets, s))
     \<and> rets = [JVal 1, JVal 2, JVal 1, JNull]
     \<and> length' s = 1 \<and> card {a. reach (heap s) (root s) a} = 1"
proof -
  let ?xs = "[Insert (JVal 5), Insert (JVal 3), Remove (JVal 5), Remove (JVal 9)]"
  from count_consistency [of default_cmp ?xs]
  obtain rets s where r: "run (empty_tree default_cmp) ?xs = Some (Inr (rets, s))"
    "length' s = int (card {a. reach (heap s) (root s) a})" by blast
  have "(case run (empty_tree default_cmp) ?xs of
           Some (Inr (rets, s)) \<Rightarrow> rets = [JVal 1, JVal 2, JVal 1, JNull] \<and> length' s = 1
         | _ \<Rightarrow> False)"
    by code_simp
  then have "rets = [JVal 1, JVal 2, JVal 1, JNull] \<and> length' s = 1" unfolding r(1) by simp
  then show ?thesis using r by auto
qed

text \<open>
  Claim C6: when \<^verbatim>\<open>search\<close> returns no node for the value, \<^verbatim>\<open>remove(value)\<close>
  returns \<^verbatim>\<open>null\<close>, which is none of the counts a successful removal returns, and the
  tree (root, links, count) is the one it was.
\<close>

theorem remove_missing_no_mutation:
  "search s value = Some (Inr node) \<Longrightarrow> \<not> truthy node \<Longrightarrow>
   remove' s value = Some (Inr (JNull, s)) \<and> (\<forall>n. (JNull :: int jsval) \<noteq> JVal n)"
  by (simp add: remove'_def)

theorem remove_missing_no_mutation_witness:
  "search (one_node 5) (JVal 4) = Some (Inr Null) \<and> \<not> truthy Null
   \<and> remove' (one_node 5) (JVal 4) = Some (Inr (JNull, one_node 5))"
proof -
  have h: "search (one_node 5) (JVal 4) = Some (Inr Null)" by code_simp
  have t: "\<not> truthy Null" by simp
  show ?thesis using remove_missing_no_mutation [OF h t] h by simp
qed

text \<open>
  Claim C7: from the empty tree with the default ordering, inserting 5, 3, 8, 1, 4, 7, 9
  gives \<^verbatim>\<open>toArray()\<close> = [1, 3, 4, 5, 7, 8, 9] and count 7. Then \<^verbatim>\<open>remove(5)\<close> returns
  6: the root is the same node, now with the value 7; the node that held 7, the leftmost
  of the right subtree and the left child of the node of 8, is no longer linked (that
  left link is \<^verbatim>\<open>null\<close>); \<^verbatim>\<open>toArray()\<close> = [1, 3, 4, 7, 8, 9] and the count is 6.
\<close>

theorem scenario_A_B:
  "(case run (empty_tree default_cmp) (map (\<lambda>n. Insert (JVal n)) [5, 3, 8, 1, 4, 7, 9]) of
      Some (Inr (rets, s)) \<Rightarrow>
        toArray s = Some (Inr (map JVal [1, 3, 4, 5, 7, 8, 9])) \<and> length' s = 7
        \<and> map_option val (heap s 0) = Some (JVal 5) \<and> root s = Ref 0
        \<and> map_option right (heap s 0) = Some (Ref 2)
        \<and> getLeftmostDescendant (heap s) (Ref 2) = Some (Inr (Ref 5))
        \<and> map_option val (heap s 5) = Some (JVal 7)
        \<and> map_option left (heap s 2) = Some (Ref 5)
        \<and> (case remove' s (JVal 5) of
              Some (Inr (ret, s')) \<Rightarrow>
                ret = JVal 6 \<and> length' s' = 6 \<and> root s' = Ref 0
                \<and> map_option val (heap s' 0) = Some (JVal 7)
                \<and> map_option right (heap s' 0) = Some (Ref 2)
                \<and> map_option left (heap s' 2) = Some Null
                \<and> toArray s' = Some (Inr (map JVal [1, 3, 4, 7, 8, 9]))
            | _ \<Rightarrow> False)
    | _ \<Rightarrow> False)"
  by code_simp

text \<open>
  Claim C8: from the empty tree with the default ordering, inserting 5, 5, 5 gives count
  3 and \<^verbatim>\<open>toArray()\<close> = [5, 5, 5]; four calls of \<^verbatim>\<open>remove(5)\<close> then return 2, 1, 0
  and \<^verbatim>\<open>null\<close>.
\<close>

theorem scenario_D:
  "(case run (empty_tree default_cmp) [Insert (JVal 5), Insert (JVal 5), Insert (JVal 5)] of
      Some (Inr (rets, s)) \<Rightarrow>
        length' s = 3 \<and> toArray s = Some (Inr [JVal 5, JVal 5, JVal 5])
        \<and> (case run s [Remove (JVal 5), Remove (JVal 5), Remove (JVal 5), Remove (JVal 5)] of
              Some (Inr (rets', s')) \<Rightarrow> rets' = [JVal 2, JVal 1, JVal 0, JNull]
            | _ \<Rightarrow> False)
    | _ \<Rightarrow> False)"
  by code_simp

text \<open>
  Claim C9: in a tree without duplicate values, for a stored value \<open>v\<close> that is neither
  the least nor the greatest, \<^verbatim>\<open>getSuccessor(getPredecessor(v))\<close> is \<open>v\<close> when
  \<^verbatim>\<open>getPredecessor(v)\<close> is not \<^verbatim>\<open>null\<close>, and \<^verbatim>\<open>getPredecessor(getSuccessor(v))\<close> is
  \<open>v\<close> when \<^verbatim>\<open>getSuccessor(v)\<close> is not \<^verbatim>\<open>null\<close>. The trees are those that calls of
  \<^verbatim>\<open>insert\<close> and \<^verbatim>\<open>remove\<close> build from the empty tree, the comparison being a strict
  total order on the inserted values; both methods return.
\<close>

theorem pred_succ_duality:
  assumes o: "strict_total_on A c" and i: "inserts_in A xs"
    and r: "run (empty_tree c) xs = Some (Inr (rets, s))"
    and t: "toArray s = Some (Inr arr)"
    and dv: "distinct arr" and v: "v \<in> set arr"
    and nmin: "\<exists>y\<in>set arr. c y v" and nmax: "\<exists>y\<in>set arr. c v y"
  shows "\<exists>u w. getPredecessor s v = Some (Inr u) \<and> getSuccessor s v = Some (Inr w)
     \<and> (u \<noteq> JNull \<longrightarrow> getSuccessor s u = Some (Inr v))
     \<and> (w \<noteq> JNull \<longrightarrow> getPredecessor s w = Some (Inr v))"
proof -
  from run_reaches [OF o i r]
  obtain T P where w: "wf s T P" and c: "cmp s = c" and b: "search_tree c T" and A: "set (vals T) \<subseteq> A"
    by blast
  have T: "T \<noteq> Tip" and arr: "arr = vals T" using toArray_vals [OF w t] by auto
  have d: "distinct (addrs T)" using w by (simp add: wf_def)
  let ?zs = "inorder T"
  have dk: "distinct (map fst ?zs)" using d by (simp add: map_fst_inorder)
  have dvs: "distinct (map snd ?zs)" using dv arr by (simp add: map_snd_inorder)
  have node: "\<exists>a. find_node c x T = Ref a \<and> (a, x) \<in> set ?zs" if "x \<in> set (vals T)" for x
  proof -
    have "find_node c x T \<noteq> Null" using b that by (rule find_node_complete)
    then obtain a l r where "find_node c x T = Ref a" "subtree a T = Br l a x r"
      using find_node_subtree [OF d, of c x] by auto
    then show ?thesis using subtree_inorder by fast
  qed
  have same: "a = a'" if "(a, x) \<in> set ?zs" "(a', x) \<in> set ?zs" for a a' x
  proof -
    have "inj_on snd (set ?zs)" using dvs by (simp add: distinct_map)
    moreover have "snd (a, x) = snd (a', x)" by simp
    ultimately have "(a, x) = (a', x)" using that by (rule inj_onD)
    then show ?thesis by simp
  qed
  obtain a where a: "find_node c v T = Ref a" "(a, v) \<in> set ?zs" using node v arr by blast
  have ain: "a \<in> set (addrs T)" using a(2) inorder_mem by fast
  let ?u = "case pred_fun a T of None \<Rightarrow> JNull | Some y \<Rightarrow> y"
  let ?w = "case succ_fun a T of None \<Rightarrow> (if P = Null then JNull else JUndefined) | Some y \<Rightarrow> y"
  have gp: "getPredecessor s v = Some (Inr ?u)" using getPredecessor_wf [OF w, of v a] a(1) c by simp
  have gs: "getSuccessor s v = Some (Inr ?w)" using getSuccessor_wf [OF w, of v a] a(1) c by simp
  have 1: "getSuccessor s ?u = Some (Inr v)" if "?u \<noteq> JNull"
  proof -
    from that obtain u where u: "pred_fun a T = Some u" by (cases "pred_fun a T") auto
    then have "prev_of a ?zs = Some u" using pred_fun_prev [OF d ain] by simp
    from prev_next [OF dk a(2) this]
    obtain a' where a': "(a', u) \<in> set ?zs" "next_of a' ?zs = Some v" by blast
    have "u \<in> set (vals T)" using a'(1) inorder_mem by fast
    then obtain a'' where a'': "find_node c u T = Ref a''" "(a'', u) \<in> set ?zs" using node by blast
    then have "a'' = a'" using a'(1) same by blast
    have "a' \<in> set (addrs T)" using a'(1) inorder_mem by fast
    then have "succ_fun a' T = Some v" using succ_fun_next [OF d] a'(2) by simp
    then show ?thesis
      using getSuccessor_wf [OF w, of u a'] a''(1) \<open>a'' = a'\<close> c u by simp
  qed
  have 2: "getPredecessor s ?w = Some (Inr v)"
  proof -
    have "next_of a ?zs \<noteq> None"
    proof
      assume "next_of a ?zs = None"
      with a(2) dk have l: "last ?zs = (a, v)" by (rule next_of_None_last)
      have zn: "vals T \<noteq> []" using T by (simp add: vals_Nil)
      have "last (vals T) = v"
        using l zn map_snd_inorder [of T] by (metis last_map map_is_Nil_conv snd_conv)
      moreover have "ascending c (vals T)" using o b A by (rule bst_ascending)
      moreover obtain y where y: "y \<in> set (vals T)" "c v y" using nmax arr by blast
      ultimately have "y = v" using ascending_last [of c "vals T" y] zn by simp
      moreover have "\<not> c v v" using o A v arr unfolding strict_total_on_def by blast
      ultimately show False using y(2) by simp
    qed
    then obtain x where x: "succ_fun a T = Some x" using succ_fun_next [OF d ain] by auto
    then have "next_of a ?zs = Some x" using succ_fun_next [OF d ain] by simp
    from next_prev [OF dk a(2) this]
    obtain a' where a': "(a', x) \<in> set ?zs" "prev_of a' ?zs = Some v" by blast
    have "x \<in> set (vals T)" using a'(1) inorder_mem by fast
    then obtain a'' where a'': "find_node c x T = Ref a''" "(a'', x) \<in> set ?zs" using node by blast
    then have "a'' = a'" using a'(1) same by blast
    have "a' \<in> set (addrs T)" using a'(1) inorder_mem by fast
    then have "pred_fun a' T = Some v" using pred_fun_prev [OF d] a'(2) by simp
    then show ?thesis
      using getPredecessor_wf [OF w, of x a'] a''(1) \<open>a'' = a'\<close> c x by simp
  qed
  show ?thesis using gp gs 1 2 by blast
qed

theorem pred_succ_duality_witness:
  "\<exists>rets s. run (empty_tree default_cmp)
       (map (\<lambda>n. Insert (JVal n)) [5, 3, 8, 1, 4, 7, 9] @ [Remove (JVal 5)])
       = Some (Inr (rets, s))
     \<and> toArray s = Some (Inr (map JVal [1, 3, 4, 7, 8, 9]))
     \<and> getPredecessor s (JVal 4) = Some (Inr (JVal 3))
     \<and> getSuccessor s (JVal 3) = Some (Inr (JVal 4))
     \<and> getSuccessor s (JVal 4) = Some (Inr (JVal 7))
     \<and> getPredecessor s (JVal 7) = Some (Inr (JVal 4))"
proof -
  let ?xs = "map (\<lambda>n. Insert (JVal n)) [5, 3, 8, 1, 4, 7, 9] @ [Remove (JVal 5)]"
  have "(case run (empty_tree default_cmp) ?xs of
           None \<Rightarrow> False
         | Some (Inl e) \<Rightarrow> False
         | Some (Inr (rets, s)) \<Rightarrow>
             toArray s = Some (Inr (map JVal [1, 3, 4, 7, 8, 9]))
             \<and> getPredecessor s (JVal 4) = Some (Inr (JVal 3))
             \<and> getSuccessor s (JVal 4) = Some (Inr (JVal 7)))"
    by code_simp
  from run_caseD [OF this]
  obtain rets s where r: "run (empty_tree default_cmp) ?xs = Some (Inr (rets, s))"
    and t: "toArray s = Some (Inr (map JVal [1, 3, 4, 7, 8, 9]))"
    and gp: "getPredecessor s (JVal 4) = Some (Inr (JVal 3))"
    and gs: "getSuccessor s (JVal 4) = Some (Inr (JVal 7))" by blast
  have i: "inserts_in (range JVal) ?xs" by simp
  have d: "distinct (map JVal [1, 3, 4, 7, 8, 9 :: int])" by simp
  have v: "JVal 4 \<in> set (map JVal [1, 3, 4, 7, 8, 9 :: int])" by simp
  have lo: "\<exists>y\<in>set (map JVal [1, 3, 4, 7, 8, 9 :: int]). default_cmp y (JVal 4)"
    by (simp add: default_cmp_def)
  have hi: "\<exists>y\<in>set (map JVal [1, 3, 4, 7, 8, 9 :: int]). default_cmp (JVal 4) y"
    by (simp add: default_cmp_def)
  from pred_succ_duality [OF default_cmp_strict_total i r t d v lo hi]
  have "getSuccessor s (JVal 3) = Some (Inr (JVal 4))
      \<and> getPredecessor s (JVal 7) = Some (Inr (JVal 4))"
    unfolding gp gs by auto
  then show ?thesis using r t gp gs by blast
qed

text \<open>
  Claim C10: \<^verbatim>\<open>toArray()\<close> needs a non-empty tree. With a \<^verbatim>\<open>null\<close> root it throws a
  \<^verbatim>\<open>TypeError\<close> (line 169 reads \<^verbatim>\<open>node.left\<close>), where \<^verbatim>\<open>insert\<close>, \<^verbatim>\<open>search\<close>,
  \<^verbatim>\<open>remove\<close>, \<^verbatim>\<open>getPredecessor\<close> and \<^verbatim>\<open>getSuccessor\<close> return; and on every tree
  with a root that calls of \<^verbatim>\<open>insert\<close> and \<^verbatim>\<open>remove\<close> build from the empty tree, it
  returns an array.
\<close>

theorem toArray_needs_nonempty:
  "(root s = Null \<longrightarrow>
      toArray s = Some (Inl TypeError)
      \<and> (\<exists>s'. insert' s v = Some (Inr (JVal (length' s + 1), s')))
      \<and> search s v = Some (Inr Null)
      \<and> remove' s v = Some (Inr (JNull, s))
      \<and> getPredecessor s v = Some (Inr JNull)
      \<and> getSuccessor s v = Some (Inr JNull))
   \<and> (run (empty_tree c) xs = Some (Inr (rets, s2)) \<and> root s2 \<noteq> Null \<longrightarrow>
        (\<exists>arr. toArray s2 = Some (Inr arr)))"
proof (rule conjI; rule impI)
  assume "root s = Null"
  then show "toArray s = Some (Inl TypeError)
      \<and> (\<exists>s'. insert' s v = Some (Inr (JVal (length' s + 1), s')))
      \<and> search s v = Some (Inr Null)
      \<and> remove' s v = Some (Inr (JNull, s))
      \<and> getPredecessor s v = Some (Inr JNull)
      \<and> getSuccessor s v = Some (Inr JNull)"
    by (intro conjI empty_root_ops)
next
  assume "run (empty_tree c) xs = Some (Inr (rets, s2)) \<and> root s2 \<noteq> Null"
  then show "\<exists>arr. toArray s2 = Some (Inr arr)"
    using run_toArray_defined by blast
qed

theorem toArray_needs_nonempty_witness:
  "toArray (empty_tree default_cmp) = Some (Inl TypeError)
   \<and> (\<exists>s'. insert' (empty_tree default_cmp) (JVal 5) = Some (Inr (JVal 1, s')))
   \<and> search (empty_tree default_cmp) (JVal 5) = Some (Inr Null)
   \<and> remove' (empty_tree default_cmp) (JVal 5) = Some (Inr (JNull, empty_tree default_cmp))
   \<and> getPredecessor (empty_tree default_cmp) (JVal 5) = Some (Inr JNull)
   \<and> getSuccessor (empty_tree default_cmp) (JVal 5) = Some (Inr JNull)
   \<and> (\<exists>rets s2. run (empty_tree default_cmp) [Insert (JVal 5)] = Some (Inr (rets, s2))
         \<and> root s2 = Ref 0 \<and> toArray s2 = Some (Inr [JVal 5]))"
proof -
  let ?e = "empty_tree default_cmp"
  have e: "root ?e = Null" "length' ?e = 0" by (simp_all add: empty_tree_def)
  have "(case run ?e [Insert (JVal 5)] of
           None \<Rightarrow> False
         | Some (Inl e) \<Rightarrow> False
         | Some (Inr (rets, s)) \<Rightarrow> root s = Ref 0 \<and> toArray s = Some (Inr [JVal 5]))"
    by code_simp
  from run_caseD [OF this]
  obtain rets s2 where r: "run ?e [Insert (JVal 5)] = Some (Inr (rets, s2))"
    and ro: "root s2 = Ref 0" and t: "toArray s2 = Some (Inr [JVal 5])" by blast
  have n: "root s2 \<noteq> Null" using ro by simp
  from toArray_needs_nonempty [of ?e "JVal 5" default_cmp "[Insert (JVal 5)]" rets s2] e r n
  have "toArray ?e = Some (Inl TypeError)
      \<and> (\<exists>s'. insert' ?e (JVal 5) = Some (Inr (JVal 1, s')))
      \<and> search ?e (JVal 5) = Some (Inr Null)
      \<and> remove' ?e (JVal 5) = Some (Inr (JNull, ?e))
      \<and> getPredecessor ?e (JVal 5) = Some (Inr JNull)
      \<and> getSuccessor ?e (JVal 5) = Some (Inr JNull)"
    by simp
  then show ?thesis using r ro t by blast
qed

end
